theory Spec2Isabelle
  imports Complex_Main "HOL-Library.Multiset"
begin

section \<open>Tree engine (src/utils/bst.js)\<close>

subsection \<open>Data model\<close>

text \<open>
  A \<^verbatim>\<open>BSTNode\<close> owns its two children exclusively, so the node graph is a tree and
  \<^verbatim>\<open>null\<close> is the empty tree. Values are the integers that \<^verbatim>\<open>parseInt\<close> hands to
  the engine. The fields \<^verbatim>\<open>x\<close> and \<^verbatim>\<open>y\<close> of a node are written and read by
  \<^verbatim>\<open>getNodesForVisualization\<close> and \<^verbatim>\<open>getEdgesForVisualization\<close> only; the operations
  below never touch them, and they are left out of the node.
\<close>

datatype node = Null | BSTNode node int node

text \<open>
  Result objects. Every one has a \<^verbatim>\<open>message\<close>; those of the descents add \<^verbatim>\<open>path\<close>,
  those of the traversals \<^verbatim>\<open>values\<close>.
\<close>

record message_result =
  message :: string

record result = message_result +
  path :: "int list"

record op_result = result +
  success :: bool

record search_result = result +
  found :: bool

record minmax_result = result +
  "value" :: "int option"

record step =
  "value" :: int
  action :: string

record traversal_result = message_result +
  "values" :: "int list"

record detailed_result = traversal_result +
  steps :: "step list"

subsection \<open>Template literals\<close>

text \<open>\<^verbatim>\<open>`${n}`\<close> for an integer \<^verbatim>\<open>n\<close>: its decimal digits, with a leading minus sign.\<close>

definition digit :: "nat \<Rightarrow> char" where
  "digit d = ''0123456789'' ! d"

fun digits :: "nat \<Rightarrow> string" where
  "digits n = (if 10 \<le> n then digits (n div 10) else []) @ [digit (n mod 10)]"

definition number_toString :: "int \<Rightarrow> string" where
  "number_toString i = (if 0 \<le> i then digits (nat i) else CHR ''-'' # digits (nat (- i)))"

text \<open>The separator \<^verbatim>\<open>' \<rightarrow> '\<close> of the traversal messages, the arrow in UTF-8.\<close>

definition arrow :: string where
  "arrow = [CHR '' '', char_of (226::nat), char_of (134::nat), char_of (146::nat), CHR '' '']"

fun join :: "int list \<Rightarrow> string \<Rightarrow> string" where
  "join [] sep = []"
| "join [v] sep = number_toString v"
| "join (v # w # vs) sep = number_toString v @ sep @ join (w # vs) sep"

subsection \<open>insert\<close>

text \<open>
  The \<^verbatim>\<open>while (true)\<close> loop of \<^verbatim>\<open>insert\<close>, started at a non-null \<^verbatim>\<open>current\<close>. The
  loop never moves to a null child (it attaches the new node instead), so there is no
  equation for \<open>Null\<close>. The second component is \<^verbatim>\<open>current\<close> after the mutation.
\<close>

fun insert_loop :: "int \<Rightarrow> node \<Rightarrow> int list \<Rightarrow> op_result \<times> node" where
  "insert_loop v (BSTNode l cv r) p =
     (let p = p @ [cv] in
      if v = cv then
        (\<lparr>message = ''Duplicate value '' @ number_toString v @ '' not allowed'', path = p,
          success = False\<rparr>, BSTNode l cv r)
      else if v < cv then
        (if l = Null then
           (\<lparr>message = ''Inserted '' @ number_toString v, path = p @ [v], success = True\<rparr>,
            BSTNode (BSTNode Null v Null) cv r)
         else (case insert_loop v l p of (res, l') \<Rightarrow> (res, BSTNode l' cv r)))
      else
        (if r = Null then
           (\<lparr>message = ''Inserted '' @ number_toString v, path = p @ [v], success = True\<rparr>,
            BSTNode l cv (BSTNode Null v Null))
         else (case insert_loop v r p of (res, r') \<Rightarrow> (res, BSTNode l cv r'))))"

text \<open>\<^verbatim>\<open>insert(value)\<close> on the tree with the given root: the result and the new root.\<close>

definition insert_bst :: "int \<Rightarrow> node \<Rightarrow> op_result \<times> node" where
  "insert_bst v rt =
     (if rt = Null then
        (\<lparr>message = ''Inserted '' @ number_toString v @ '' as root'', path = [v], success = True\<rparr>,
         BSTNode Null v Null)
      else insert_loop v rt [])"

subsection \<open>search\<close>

fun search_loop :: "int \<Rightarrow> node \<Rightarrow> int list \<Rightarrow> search_result" where
  "search_loop v Null p =
     \<lparr>message = ''Value '' @ number_toString v @ '' not found'', path = p, found = False\<rparr>"
| "search_loop v (BSTNode l cv r) p =
     (let p = p @ [cv] in
      if v = cv then \<lparr>message = ''Found '' @ number_toString v, path = p, found = True\<rparr>
      else if v < cv then search_loop v l p
      else search_loop v r p)"

definition search :: "int \<Rightarrow> node \<Rightarrow> search_result" where
  "search v rt = search_loop v rt []"

subsection \<open>remove\<close>

text \<open>
  Case 3 of \<^verbatim>\<open>remove\<close>: the descent from \<^verbatim>\<open>current.right\<close> to the successor. The
  result is the successor's value, the path, and the subtree the descent started at
  with the successor's slot linked to \<^verbatim>\<open>successor.right\<close>. The start is never null
  (the removed node has two children).
\<close>

fun successor_loop :: "node \<Rightarrow> int list \<Rightarrow> int \<times> int list \<times> node" where
  "successor_loop (BSTNode sl sv sr) p =
     (if sl \<noteq> Null then
        (case successor_loop sl (p @ [sv]) of (s, p', sl') \<Rightarrow> (s, p', BSTNode sl' sv sr))
      else (sv, p @ [sv], sr))"

text \<open>
  The code after the search loop of \<^verbatim>\<open>remove\<close>, for the node \<^verbatim>\<open>current\<close> that holds
  the value. The second component is what the slot that held \<^verbatim>\<open>current\<close> (the root
  reference, \<^verbatim>\<open>parent.left\<close> or \<^verbatim>\<open>parent.right\<close>) refers to afterwards.
\<close>

fun remove_node :: "int \<Rightarrow> node \<Rightarrow> int list \<Rightarrow> op_result \<times> node" where
  "remove_node v (BSTNode l cv r) p =
     (let p = p @ [cv] in
      if l = Null \<and> r = Null then
        (\<lparr>message = ''Removed leaf node '' @ number_toString v, path = p, success = True\<rparr>, Null)
      else if l = Null \<or> r = Null then
        (let child = (if l \<noteq> Null then l else r) in
         (\<lparr>message = ''Removed '' @ number_toString v @ '' (one child)'', path = p,
           success = True\<rparr>, child))
      else
        (case successor_loop r p of (s, p', r') \<Rightarrow>
           (\<lparr>message = ''Removed '' @ number_toString v @ '' (two children, replaced with ''
                       @ number_toString s @ '')'',
             path = p', success = True\<rparr>, BSTNode l s r')))"

text \<open>
  The search loop of \<^verbatim>\<open>remove\<close> with \<^verbatim>\<open>parent\<close> and \<^verbatim>\<open>isLeftChild\<close>: the recursion
  returns what the slot it descended through refers to afterwards.
\<close>

fun remove_loop :: "int \<Rightarrow> node \<Rightarrow> int list \<Rightarrow> op_result \<times> node" where
  "remove_loop v Null p =
     (\<lparr>message = ''Value '' @ number_toString v @ '' not found'', path = p, success = False\<rparr>,
      Null)"
| "remove_loop v (BSTNode l cv r) p =
     (if cv \<noteq> v then
        (if v < cv then
           (case remove_loop v l (p @ [cv]) of (res, l') \<Rightarrow> (res, BSTNode l' cv r))
         else
           (case remove_loop v r (p @ [cv]) of (res, r') \<Rightarrow> (res, BSTNode l cv r')))
      else remove_node v (BSTNode l cv r) p)"

definition remove :: "int \<Rightarrow> node \<Rightarrow> op_result \<times> node" where
  "remove v rt = remove_loop v rt []"

subsection \<open>findMin, findMax, clear\<close>

fun findMin_loop :: "node \<Rightarrow> int list \<Rightarrow> int \<times> int list" where
  "findMin_loop (BSTNode l cv r) p =
     (if l \<noteq> Null then findMin_loop l (p @ [cv]) else (cv, p @ [cv]))"

definition findMin :: "node \<Rightarrow> minmax_result" where
  "findMin rt =
     (if rt = Null then \<lparr>message = ''Tree is empty'', path = [], minmax_result.value = None\<rparr>
      else (case findMin_loop rt [] of (cv, p) \<Rightarrow>
        \<lparr>message = ''Minimum value is '' @ number_toString cv, path = p,
          minmax_result.value = Some cv\<rparr>))"

fun findMax_loop :: "node \<Rightarrow> int list \<Rightarrow> int \<times> int list" where
  "findMax_loop (BSTNode l cv r) p =
     (if r \<noteq> Null then findMax_loop r (p @ [cv]) else (cv, p @ [cv]))"

definition findMax :: "node \<Rightarrow> minmax_result" where
  "findMax rt =
     (if rt = Null then \<lparr>message = ''Tree is empty'', path = [], minmax_result.value = None\<rparr>
      else (case findMax_loop rt [] of (cv, p) \<Rightarrow>
        \<lparr>message = ''Maximum value is '' @ number_toString cv, path = p,
          minmax_result.value = Some cv\<rparr>))"

text \<open>\<^verbatim>\<open>clear()\<close>: the acknowledgement and the new root.\<close>

definition clear :: "node \<Rightarrow> (bool \<times> string) \<times> node" where
  "clear rt = ((True, ''Tree cleared''), Null)"

subsection \<open>Traversals\<close>

text \<open>The closures \<^verbatim>\<open>traverse\<close>, with the arrays they push to passed through.\<close>

fun inorder_traverse :: "node \<Rightarrow> int list \<Rightarrow> int list" where
  "inorder_traverse Null vs = vs"
| "inorder_traverse (BSTNode l v r) vs = inorder_traverse r (inorder_traverse l vs @ [v])"

definition traversal_message :: "string \<Rightarrow> int list \<Rightarrow> string" where
  "traversal_message name vs =
     name @ '': '' @ (if join vs arrow = [] then ''Empty tree'' else join vs arrow)"

definition inorder :: "node \<Rightarrow> traversal_result" where
  "inorder rt =
     (let vs = inorder_traverse rt [] in
      \<lparr>message = traversal_message ''Inorder'' vs, values = vs\<rparr>)"

fun inorderDetailed_traverse :: "node \<Rightarrow> step list \<times> int list \<Rightarrow> step list \<times> int list" where
  "inorderDetailed_traverse Null acc = acc"
| "inorderDetailed_traverse (BSTNode l v r) (ss, vs) =
     (case inorderDetailed_traverse l (ss @ [\<lparr>value = v, action = ''enter''\<rparr>], vs) of
        (ss1, vs1) \<Rightarrow>
          (case inorderDetailed_traverse r (ss1 @ [\<lparr>value = v, action = ''visit''\<rparr>], vs1 @ [v]) of
             (ss2, vs2) \<Rightarrow> (ss2 @ [\<lparr>value = v, action = ''exit''\<rparr>], vs2)))"

fun preorderDetailed_traverse :: "node \<Rightarrow> step list \<times> int list \<Rightarrow> step list \<times> int list" where
  "preorderDetailed_traverse Null acc = acc"
| "preorderDetailed_traverse (BSTNode l v r) (ss, vs) =
     (case preorderDetailed_traverse l
             (ss @ [\<lparr>value = v, action = ''enter''\<rparr>, \<lparr>value = v, action = ''visit''\<rparr>], vs @ [v]) of
        (ss1, vs1) \<Rightarrow>
          (case preorderDetailed_traverse r (ss1, vs1) of
             (ss2, vs2) \<Rightarrow> (ss2 @ [\<lparr>value = v, action = ''exit''\<rparr>], vs2)))"

fun postorderDetailed_traverse :: "node \<Rightarrow> step list \<times> int list \<Rightarrow> step list \<times> int list" where
  "postorderDetailed_traverse Null acc = acc"
| "postorderDetailed_traverse (BSTNode l v r) (ss, vs) =
     (case postorderDetailed_traverse l (ss @ [\<lparr>value = v, action = ''enter''\<rparr>], vs) of
        (ss1, vs1) \<Rightarrow>
          (case postorderDetailed_traverse r (ss1, vs1) of
             (ss2, vs2) \<Rightarrow>
               (ss2 @ [\<lparr>value = v, action = ''visit''\<rparr>, \<lparr>value = v, action = ''exit''\<rparr>],
                vs2 @ [v])))"

definition inorderDetailed :: "node \<Rightarrow> detailed_result" where
  "inorderDetailed rt =
     (case inorderDetailed_traverse rt ([], []) of (ss, vs) \<Rightarrow>
        \<lparr>message = traversal_message ''Inorder'' vs, values = vs, steps = ss\<rparr>)"

definition preorderDetailed :: "node \<Rightarrow> detailed_result" where
  "preorderDetailed rt =
     (case preorderDetailed_traverse rt ([], []) of (ss, vs) \<Rightarrow>
        \<lparr>message = traversal_message ''Preorder'' vs, values = vs, steps = ss\<rparr>)"

definition postorderDetailed :: "node \<Rightarrow> detailed_result" where
  "postorderDetailed rt =
     (case postorderDetailed_traverse rt ([], []) of (ss, vs) \<Rightarrow>
        \<lparr>message = traversal_message ''Postorder'' vs, values = vs, steps = ss\<rparr>)"

text \<open>
  \<^verbatim>\<open>valuesToInsert.forEach((value) => bst.insert(value))\<close> of the preset handler:
  the values are inserted in order and the results dropped.
\<close>

definition insert_all :: "int list \<Rightarrow> node \<Rightarrow> node" where
  "insert_all vs rt = foldl (\<lambda>t v. snd (insert_bst v t)) rt vs"

section \<open>Animation frame generator (src/App.tsx)\<close>

subsection \<open>Data model\<close>

text \<open>
  A coordinate \<^verbatim>\<open>{x, y}\<close>, an edge end \<^verbatim>\<open>{...pos, value}\<close> and an entry
  \<^verbatim>\<open>{value, x, y, left, right}\<close> of \<^verbatim>\<open>getNodesForVisualization()\<close>. Coordinates are
  halved canvas widths, read here as real numbers.
\<close>

record point =
  x :: real
  y :: real

record valued_point = point +
  "value" :: int

record vis_node = valued_point +
  left :: "int option"
  right :: "int option"

record AnimatedEdge =
  "from" :: valued_point
  "to" :: valued_point

record AnimationFrame =
  highlightedNode :: "int option"
  pointerPosition :: "point option"
  visitedNodes :: "int list"
  pathNodes :: "int list"
  connectedEdges :: "AnimatedEdge list"

text \<open>The local variables of the two generators.\<close>

record locals =
  currentVisited :: "int list"
  currentPointer :: "point option"
  currentHighlighted :: "int option"
  frames :: "AnimationFrame list"

record path_locals = locals +
  currentAnimatedEdges :: "AnimatedEdge list"

record traversal_locals = locals +
  currentPathNodes :: "int list"

text \<open>
  \<^verbatim>\<open>getPos\<close>. Both generators read \<^verbatim>\<open>currentNodes\<close> from
  \<^verbatim>\<open>bst.getNodesForVisualization()\<close> once; it is a parameter here.
\<close>

definition getPos :: "vis_node list \<Rightarrow> int \<Rightarrow> point option" where
  "getPos currentNodes v =
     (case find (\<lambda>n. value n = v) currentNodes of
        Some n \<Rightarrow> Some \<lparr>x = x n, y = y n\<rparr>
      | None \<Rightarrow> None)"

definition blank_frame :: AnimationFrame where
  "blank_frame = \<lparr>highlightedNode = None, pointerPosition = None, visitedNodes = [],
                   pathNodes = [], connectedEdges = []\<rparr>"

subsection \<open>generatePathFrames\<close>

text \<open>The body of the \<^verbatim>\<open>for\<close> loop at index \<open>i < length path\<close>.\<close>

definition generatePathFrames_body ::
  "vis_node list \<Rightarrow> int list \<Rightarrow> nat \<Rightarrow> path_locals \<Rightarrow> path_locals" where
  "generatePathFrames_body currentNodes pth i s =
     (let currentValue = pth ! i in
      case getPos currentNodes currentValue of
        None \<Rightarrow> s
      | Some currentPos \<Rightarrow>
          (let s1 = s\<lparr>currentPointer := Some currentPos,
                      currentHighlighted := Some currentValue,
                      currentVisited := currentVisited s @ [currentValue]\<rparr>;
               s2 = s1\<lparr>frames := frames s1 @
                      [\<lparr>highlightedNode = currentHighlighted s1,
                        pointerPosition = currentPointer s1,
                        visitedNodes = currentVisited s1,
                        pathNodes = [],
                        connectedEdges = currentAnimatedEdges s1\<rparr>]\<rparr>
           in
           if i < length pth - 1 then
             (let nextValue = pth ! (i + 1) in
              case getPos currentNodes nextValue of
                None \<Rightarrow> s2
              | Some nextPos \<Rightarrow>
                  (let s3 = s2\<lparr>currentAnimatedEdges := currentAnimatedEdges s2 @
                              [\<lparr>from = \<lparr>x = x currentPos, y = y currentPos, value = currentValue\<rparr>,
                                to = \<lparr>x = x nextPos, y = y nextPos, value = nextValue\<rparr>\<rparr>]\<rparr>
                   in s3\<lparr>frames := frames s3 @
                        [\<lparr>highlightedNode = currentHighlighted s3,
                          pointerPosition = currentPointer s3,
                          visitedNodes = currentVisited s3,
                          pathNodes = [],
                          connectedEdges = currentAnimatedEdges s3\<rparr>]\<rparr>))
           else s2))"

function generatePathFrames_loop ::
  "vis_node list \<Rightarrow> int list \<Rightarrow> nat \<Rightarrow> path_locals \<Rightarrow> path_locals" where
  "generatePathFrames_loop currentNodes pth i s =
     (if i < length pth
      then generatePathFrames_loop currentNodes pth (i + 1)
             (generatePathFrames_body currentNodes pth i s)
      else s)"
  by pat_completeness auto
termination
  by (relation "measure (\<lambda>(currentNodes, pth, i, s). length pth - i)") auto

declare generatePathFrames_loop.simps [simp del]

definition generatePathFrames ::
  "vis_node list \<Rightarrow> int list \<Rightarrow> int option \<Rightarrow> AnimationFrame list" where
  "generatePathFrames currentNodes pth finalHighlight =
     (let s0 = \<lparr>currentVisited = [], currentPointer = None, currentHighlighted = None,
                frames = [blank_frame], currentAnimatedEdges = []\<rparr>;
          s = generatePathFrames_loop currentNodes pth 0 s0
      in case finalHighlight of
           None \<Rightarrow> frames s
         | Some fh \<Rightarrow>
             (case getPos currentNodes fh of
                None \<Rightarrow> frames s
              | Some finalPos \<Rightarrow>
                  frames s @
                  [\<lparr>highlightedNode = Some fh,
                    pointerPosition = Some finalPos,
                    visitedNodes = currentVisited s,
                    pathNodes = [],
                    connectedEdges = currentAnimatedEdges s\<rparr>]))"

subsection \<open>generateTraversalFrames\<close>

text \<open>
  The truthiness test \<^verbatim>\<open>if (parentId)\<close> on the last element of the stack:
  \<^verbatim>\<open>undefined\<close> (empty stack) and \<^verbatim>\<open>0\<close> are falsy.
\<close>

definition truthy :: "int option \<Rightarrow> bool" where
  "truthy parentId = (case parentId of None \<Rightarrow> False | Some n \<Rightarrow> n \<noteq> 0)"

text \<open>One iteration of \<^verbatim>\<open>for (const step of steps)\<close>.\<close>

definition generateTraversalFrames_body ::
  "vis_node list \<Rightarrow> traversal_locals \<Rightarrow> step \<Rightarrow> traversal_locals" where
  "generateTraversalFrames_body currentNodes s st =
     (case getPos currentNodes (step.value st) of
        None \<Rightarrow> s
      | Some pos \<Rightarrow>
          if action st = ''enter'' then
            (let s1 = s\<lparr>currentPathNodes := currentPathNodes s @ [step.value st],
                        currentPointer := Some pos,
                        currentHighlighted := Some (step.value st)\<rparr>
             in s1\<lparr>frames := frames s1 @
                  [\<lparr>highlightedNode = currentHighlighted s1,
                    pointerPosition = currentPointer s1,
                    visitedNodes = currentVisited s1,
                    pathNodes = currentPathNodes s1,
                    connectedEdges = []\<rparr>]\<rparr>)
          else if action st = ''visit'' then
            (let s1 = s\<lparr>currentVisited := currentVisited s @ [step.value st],
                        currentPointer := Some pos,
                        currentHighlighted := Some (step.value st)\<rparr>
             in s1\<lparr>frames := frames s1 @
                  [\<lparr>highlightedNode = currentHighlighted s1,
                    pointerPosition = currentPointer s1,
                    visitedNodes = currentVisited s1,
                    pathNodes = currentPathNodes s1,
                    connectedEdges = []\<rparr>]\<rparr>)
          else if action st = ''exit'' then
            (let s1 = s\<lparr>currentPathNodes :=
                          filter (\<lambda>v. v \<noteq> step.value st) (currentPathNodes s)\<rparr>;
                 parentId = (if currentPathNodes s1 = [] then None
                             else Some (last (currentPathNodes s1)));
                 s2 = (if truthy parentId
                       then s1\<lparr>currentPointer := getPos currentNodes (the parentId),
                                currentHighlighted := parentId\<rparr>
                       else s1\<lparr>currentPointer := None, currentHighlighted := None\<rparr>)
             in s2\<lparr>frames := frames s2 @
                  [\<lparr>highlightedNode = currentHighlighted s2,
                    pointerPosition = currentPointer s2,
                    visitedNodes = currentVisited s2,
                    pathNodes = currentPathNodes s2,
                    connectedEdges = []\<rparr>]\<rparr>)
          else s)"

definition generateTraversalFrames :: "vis_node list \<Rightarrow> step list \<Rightarrow> AnimationFrame list" where
  "generateTraversalFrames currentNodes stps =
     (let s0 = \<lparr>currentVisited = [], currentPointer = None, currentHighlighted = None,
                frames = [blank_frame], currentPathNodes = []\<rparr>;
          s = foldl (generateTraversalFrames_body currentNodes) s0 stps
      in frames s @
         [\<lparr>highlightedNode = None, pointerPosition = None, visitedNodes = currentVisited s,
           pathNodes = [], connectedEdges = []\<rparr>])"

section \<open>Notions of the specification\<close>

text \<open>The values of a tree, left subtree first, and the tree invariant of the data model.\<close>

fun node_values :: "node \<Rightarrow> int list" where
  "node_values Null = []"
| "node_values (BSTNode l v r) = node_values l @ v # node_values r"

fun bst_inv :: "node \<Rightarrow> bool" where
  "bst_inv Null = True"
| "bst_inv (BSTNode l v r) =
     ((\<forall>x \<in> set (node_values l). x < v) \<and> (\<forall>x \<in> set (node_values r). v < x)
      \<and> bst_inv l \<and> bst_inv r)"

text \<open>The tree of the examples: 15, 6, 23, 4, 7, 20, 50 inserted into the empty tree.\<close>

definition example_tree :: node where
  "example_tree = insert_all [15, 6, 23, 4, 7, 20, 50] Null"

text \<open>
  The values a descent for \<open>v\<close> compares against, and the values on the left and on the
  right spine of a tree, from the root down.
\<close>

fun descent_path :: "int \<Rightarrow> node \<Rightarrow> int list" where
  "descent_path v Null = []"
| "descent_path v (BSTNode l cv r) =
     cv # (if v = cv then [] else if v < cv then descent_path v l else descent_path v r)"

fun left_spine :: "node \<Rightarrow> int list" where
  "left_spine Null = []"
| "left_spine (BSTNode l v r) = v # left_spine l"

fun right_spine :: "node \<Rightarrow> int list" where
  "right_spine Null = []"
| "right_spine (BSTNode l v r) = v # right_spine r"

text \<open>
  Event logs: the number of events with a given action and value, and the stack depth
  (enter events minus exit events) of a log.
\<close>

definition count_events :: "string \<Rightarrow> int \<Rightarrow> step list \<Rightarrow> nat" where
  "count_events a v ss = length (filter (\<lambda>s. action s = a \<and> step.value s = v) ss)"

definition stack_depth :: "step list \<Rightarrow> int" where
  "stack_depth ss = int (length (filter (\<lambda>s. action s = ''enter'') ss))
                  - int (length (filter (\<lambda>s. action s = ''exit'') ss))"

text \<open>
  The event logs as the specification words them: enter, left subtree, visit, right
  subtree, exit for inorder; enter, visit, left, right, exit for preorder; enter, left,
  right, visit, exit for postorder.
\<close>

fun inorder_events :: "node \<Rightarrow> step list" where
  "inorder_events Null = []"
| "inorder_events (BSTNode l v r) =
     [\<lparr>step.value = v, action = ''enter''\<rparr>] @ inorder_events l @ [\<lparr>step.value = v, action = ''visit''\<rparr>]
     @ inorder_events r @ [\<lparr>step.value = v, action = ''exit''\<rparr>]"

fun preorder_events :: "node \<Rightarrow> step list" where
  "preorder_events Null = []"
| "preorder_events (BSTNode l v r) =
     [\<lparr>step.value = v, action = ''enter''\<rparr>, \<lparr>step.value = v, action = ''visit''\<rparr>] @ preorder_events l
     @ preorder_events r @ [\<lparr>step.value = v, action = ''exit''\<rparr>]"

fun postorder_events :: "node \<Rightarrow> step list" where
  "postorder_events Null = []"
| "postorder_events (BSTNode l v r) =
     [\<lparr>step.value = v, action = ''enter''\<rparr>] @ postorder_events l @ postorder_events r
     @ [\<lparr>step.value = v, action = ''visit''\<rparr>, \<lparr>step.value = v, action = ''exit''\<rparr>]"

text \<open>A log whose stack depth is never negative at a prefix and zero at the end.\<close>

definition balanced :: "step list \<Rightarrow> bool" where
  "balanced es = ((\<forall>n. 0 \<le> stack_depth (take n es)) \<and> stack_depth es = 0)"

text \<open>
  The subtree at which a descent for \<open>v\<close> ends, the tree with that subtree replaced, the
  tree with its leftmost node replaced by that node's right child, and the value at the
  root.
\<close>

fun locate :: "int \<Rightarrow> node \<Rightarrow> node" where
  "locate v Null = Null"
| "locate v (BSTNode l cv r) =
     (if cv = v then BSTNode l cv r else if v < cv then locate v l else locate v r)"

fun graft :: "int \<Rightarrow> node \<Rightarrow> node \<Rightarrow> node" where
  "graft v Null s = s"
| "graft v (BSTNode l cv r) s =
     (if cv = v then s
      else if v < cv then BSTNode (graft v l s) cv r
      else BSTNode l cv (graft v r s))"

fun unlink_leftmost :: "node \<Rightarrow> node" where
  "unlink_leftmost Null = Null"
| "unlink_leftmost (BSTNode l cv r) = (if l = Null then r else BSTNode (unlink_leftmost l) cv r)"

definition root_value :: "node \<Rightarrow> int option" where
  "root_value t = (case t of Null \<Rightarrow> None | BSTNode l cv r \<Rightarrow> Some cv)"

text \<open>
  The entries of \<^verbatim>\<open>getNodesForVisualization()\<close> for the tree with 0 at the root, 5 as
  its right child and 9 as the right child of 5.
\<close>

definition example_nodes :: "vis_node list" where
  "example_nodes = [\<lparr>x = 400, y = 50, value = 0, left = None, right = Some 5\<rparr>,
                    \<lparr>x = 600, y = 120, value = 5, left = None, right = Some 9\<rparr>,
                    \<lparr>x = 700, y = 190, value = 9, left = None, right = None\<rparr>]"

text \<open>
  The frames of a path as the specification words them. The values of a list that have
  a coordinate; the edge from the value at index \<open>j\<close> to the next value of the path, when
  there is a next value and both have a coordinate; the edges of all indices below
  \<open>i\<close>; the frames for the value at index \<open>i\<close> (none without a coordinate, else the
  arrival frame and, when a next value exists and has a coordinate, the frame with the
  new edge); the trailing frame; and the whole frame list.
\<close>

definition with_coordinate :: "vis_node list \<Rightarrow> int list \<Rightarrow> int list" where
  "with_coordinate currentNodes vs = filter (\<lambda>v. getPos currentNodes v \<noteq> None) vs"

definition edge_at :: "vis_node list \<Rightarrow> int list \<Rightarrow> nat \<Rightarrow> AnimatedEdge list" where
  "edge_at currentNodes pth j =
     (if j + 1 < length pth then
        (case (getPos currentNodes (pth ! j), getPos currentNodes (pth ! (j + 1))) of
           (Some a, Some b) \<Rightarrow>
             [\<lparr>from = \<lparr>x = x a, y = y a, value = pth ! j\<rparr>,
               to = \<lparr>x = x b, y = y b, value = pth ! (j + 1)\<rparr>\<rparr>]
         | _ \<Rightarrow> [])
      else [])"

definition edges_upto :: "vis_node list \<Rightarrow> int list \<Rightarrow> nat \<Rightarrow> AnimatedEdge list" where
  "edges_upto currentNodes pth i = concat (map (edge_at currentNodes pth) [0..<i])"

definition frames_at :: "vis_node list \<Rightarrow> int list \<Rightarrow> nat \<Rightarrow> AnimationFrame list" where
  "frames_at currentNodes pth i =
     (case getPos currentNodes (pth ! i) of
        None \<Rightarrow> []
      | Some pos \<Rightarrow>
          \<lparr>highlightedNode = Some (pth ! i), pointerPosition = Some pos,
            visitedNodes = with_coordinate currentNodes (take (i + 1) pth), pathNodes = [],
            connectedEdges = edges_upto currentNodes pth i\<rparr>
          # (if i + 1 < length pth \<and> getPos currentNodes (pth ! (i + 1)) \<noteq> None
             then [\<lparr>highlightedNode = Some (pth ! i), pointerPosition = Some pos,
                    visitedNodes = with_coordinate currentNodes (take (i + 1) pth),
                    pathNodes = [],
                    connectedEdges = edges_upto currentNodes pth (i + 1)\<rparr>]
             else []))"

definition final_frame :: "vis_node list \<Rightarrow> int list \<Rightarrow> int option \<Rightarrow> AnimationFrame list" where
  "final_frame currentNodes pth finalHighlight =
     (case finalHighlight of
        None \<Rightarrow> []
      | Some v \<Rightarrow>
          (case getPos currentNodes v of
             None \<Rightarrow> []
           | Some pos \<Rightarrow>
               [\<lparr>highlightedNode = Some v, pointerPosition = Some pos,
                 visitedNodes = with_coordinate currentNodes pth, pathNodes = [],
                 connectedEdges = edges_upto currentNodes pth (length pth)\<rparr>]))"

definition path_frames :: "vis_node list \<Rightarrow> int list \<Rightarrow> int option \<Rightarrow> AnimationFrame list" where
  "path_frames currentNodes pth finalHighlight =
     blank_frame # concat (map (frames_at currentNodes pth) [0..<length pth])
     @ final_frame currentNodes pth finalHighlight"

text \<open>The state of the \<^verbatim>\<open>for\<close> loop of \<^verbatim>\<open>generatePathFrames\<close> before index \<open>i\<close>.\<close>

definition path_inv :: "vis_node list \<Rightarrow> int list \<Rightarrow> nat \<Rightarrow> path_locals \<Rightarrow> bool" where
  "path_inv currentNodes pth i s =
     (currentVisited s = with_coordinate currentNodes (take i pth)
      \<and> currentAnimatedEdges s = edges_upto currentNodes pth i
      \<and> frames s = blank_frame # concat (map (frames_at currentNodes pth) [0..<i]))"

text \<open>
  The local variables of \<^verbatim>\<open>generateTraversalFrames\<close> after the loop has handled the
  given steps; the frames pushed by then (all frames but the completion frame); the
  values of the visit events that have a coordinate; and what holds of the local
  variables between two iterations.
\<close>

definition traversal_state :: "vis_node list \<Rightarrow> step list \<Rightarrow> traversal_locals" where
  "traversal_state currentNodes stps =
     foldl (generateTraversalFrames_body currentNodes)
       \<lparr>currentVisited = [], currentPointer = None, currentHighlighted = None,
         frames = [blank_frame], currentPathNodes = []\<rparr> stps"

definition emitted :: "vis_node list \<Rightarrow> step list \<Rightarrow> AnimationFrame list" where
  "emitted currentNodes stps = butlast (generateTraversalFrames currentNodes stps)"

definition visits :: "vis_node list \<Rightarrow> step list \<Rightarrow> int list" where
  "visits currentNodes stps =
     map step.value
       (filter (\<lambda>s. action s = ''visit'' \<and> getPos currentNodes (step.value s) \<noteq> None) stps)"

definition traversal_inv :: "vis_node list \<Rightarrow> traversal_locals \<Rightarrow> bool" where
  "traversal_inv currentNodes s =
     (frames s \<noteq> []
      \<and> pathNodes (last (frames s)) = currentPathNodes s
      \<and> visitedNodes (last (frames s)) = currentVisited s
      \<and> list_all (\<lambda>w. getPos currentNodes w \<noteq> None) (currentPathNodes s))"

section \<open>The tree invariant\<close>

lemma set_insert_loop:
  "t \<noteq> Null \<Longrightarrow> set (node_values (snd (insert_loop v t p))) = {v} \<union> set (node_values t)"
  by (induction t arbitrary: p) (auto simp: Let_def split_beta)

lemma inv_insert_loop:
  "t \<noteq> Null \<Longrightarrow> bst_inv t \<Longrightarrow> bst_inv (snd (insert_loop v t p))"
proof (induction t arbitrary: p)
  case Null
  then show ?case by simp
next
  case (BSTNode l c r)
  have sl: "l \<noteq> Null \<Longrightarrow> set (node_values (snd (insert_loop v l (p @ [c])))) = {v} \<union> set (node_values l)"
    by (rule set_insert_loop)
  have sr: "r \<noteq> Null \<Longrightarrow> set (node_values (snd (insert_loop v r (p @ [c])))) = {v} \<union> set (node_values r)"
    by (rule set_insert_loop)
  from BSTNode sl sr show ?case
    by (auto simp: Let_def split_beta)
qed

lemma inv_insert_bst: "bst_inv t \<Longrightarrow> bst_inv (snd (insert_bst v t))"
  by (simp add: insert_bst_def inv_insert_loop)

lemma set_insert_bst: "set (node_values (snd (insert_bst v t))) = {v} \<union> set (node_values t)"
  by (simp add: insert_bst_def set_insert_loop)

lemma successor_loop_values:
  "t \<noteq> Null \<Longrightarrow> successor_loop t p = (s, p', t') \<Longrightarrow> node_values t = s # node_values t'"
  by (induction t arbitrary: p t') (auto split: prod.splits if_splits)

lemma successor_loop_inv:
  "t \<noteq> Null \<Longrightarrow> successor_loop t p = (s, p', t') \<Longrightarrow> bst_inv t
     \<Longrightarrow> bst_inv t' \<and> (\<forall>x \<in> set (node_values t'). s < x)"
proof (induction t arbitrary: p t')
  case Null
  then show ?case by simp
next
  case (BSTNode l c r)
  show ?case
  proof (cases "l = Null")
    case True
    with BSTNode.prems show ?thesis by auto
  next
    case False
    then obtain l' where sl: "successor_loop l (p @ [c]) = (s, p', l')" and t': "t' = BSTNode l' c r"
      using BSTNode.prems(2) by (auto split: prod.splits)
    have vl: "node_values l = s # node_values l'"
      using successor_loop_values [OF False sl] .
    have "bst_inv l' \<and> (\<forall>x \<in> set (node_values l'). s < x)"
      using BSTNode.IH(1) [OF False sl] BSTNode.prems(3) by simp
    with BSTNode.prems(3) vl t' show ?thesis by fastforce
  qed
qed

lemma remove_node_inv:
  assumes "bst_inv (BSTNode l v r)"
  shows "bst_inv (snd (remove_node v (BSTNode l v r) p))
       \<and> set (node_values (snd (remove_node v (BSTNode l v r) p))) = set (node_values l) \<union> set (node_values r)"
proof (cases "l = Null \<or> r = Null")
  case True
  with assms show ?thesis by (auto simp: Let_def)
next
  case False
  obtain s p' r' where sl: "successor_loop r (p @ [v]) = (s, p', r')"
    by (cases "successor_loop r (p @ [v])") auto
  have rn: "r \<noteq> Null" using False by simp
  have vr: "node_values r = s # node_values r'"
    using successor_loop_values [OF rn sl] .
  have ir: "bst_inv r' \<and> (\<forall>x \<in> set (node_values r'). s < x)"
    using successor_loop_inv [OF rn sl] assms by simp
  from False sl vr ir assms show ?thesis
    by (fastforce simp: Let_def)
qed

lemma remove_loop_inv:
  "bst_inv t \<Longrightarrow> bst_inv (snd (remove_loop v t p))
     \<and> set (node_values (snd (remove_loop v t p))) = set (node_values t) - {v}"
proof (induction t arbitrary: p)
  case Null
  then show ?case by simp
next
  case (BSTNode l c r)
  show ?case
  proof (cases "c = v")
    case True
    with BSTNode.prems remove_node_inv [of l v r p] show ?thesis by auto
  next
    case False
    with BSTNode show ?thesis
      by (auto simp: split_beta)
  qed
qed

lemma remove_loop_success:
  "bst_inv t \<Longrightarrow> v \<in> set (node_values t) \<Longrightarrow> success (fst (remove_loop v t p))"
proof (induction t arbitrary: p)
  case Null
  then show ?case by simp
next
  case (BSTNode l c r)
  show ?case
  proof (cases "c = v")
    case True
    then show ?thesis by (simp add: Let_def split_beta)
  next
    case False
    with BSTNode show ?thesis by (auto simp: split_beta)
  qed
qed

lemma search_loop_found:
  "bst_inv t \<Longrightarrow> found (search_loop v t p) = (v \<in> set (node_values t))"
  by (induction t arbitrary: p) (auto simp: Let_def)


lemma bst_inv_distinct: "bst_inv t \<Longrightarrow> distinct (node_values t)"
  by (induction t) fastforce+

lemma example_tree_eq:
  "example_tree = BSTNode (BSTNode (BSTNode Null 4 Null) 6 (BSTNode Null 7 Null)) 15
                    (BSTNode (BSTNode Null 20 Null) 23 (BSTNode Null 50 Null))"
  by (simp add: example_tree_def insert_all_def insert_bst_def)

text \<open>
  Claim C1. On a tree that satisfies the invariant, \<^verbatim>\<open>insert\<close>, \<^verbatim>\<open>remove\<close> and
  \<^verbatim>\<open>clear\<close> leave a tree that satisfies it (every left subtree below, every right subtree
  above its node) and holds no value twice; removing a value that was just inserted
  succeeds, and after \<^verbatim>\<open>remove(v)\<close> a search for \<open>v\<close> reports \<^verbatim>\<open>found = false\<close>.
\<close>

theorem C1_mutations_preserve_invariant:
  assumes "bst_inv rt"
  shows "bst_inv (snd (insert_bst v rt)) \<and> distinct (node_values (snd (insert_bst v rt)))
       \<and> bst_inv (snd (remove v rt)) \<and> distinct (node_values (snd (remove v rt)))
       \<and> bst_inv (snd (clear rt)) \<and> distinct (node_values (snd (clear rt)))
       \<and> success (fst (remove v (snd (insert_bst v rt))))
       \<and> \<not> found (search v (snd (remove v (snd (insert_bst v rt)))))
       \<and> \<not> found (search v (snd (remove v rt)))"
proof -
  have i: "bst_inv (snd (insert_bst v rt))"
    using assms by (rule inv_insert_bst)
  have r: "bst_inv (snd (remove v rt))"
    using remove_loop_inv [OF assms] by (simp add: remove_def)
  have c: "bst_inv (snd (clear rt))"
    by (simp add: clear_def)
  have ri: "bst_inv (snd (remove v (snd (insert_bst v rt))))"
    using remove_loop_inv [OF i] by (simp add: remove_def)
  have s1: "\<not> found (search v (snd (remove v (snd (insert_bst v rt)))))"
    using remove_loop_inv [OF i, of v "[]"] by (simp add: search_def remove_def search_loop_found)
  have s2: "\<not> found (search v (snd (remove v rt)))"
    using remove_loop_inv [OF assms, of v "[]"] by (simp add: search_def remove_def search_loop_found)
  have "v \<in> set (node_values (snd (insert_bst v rt)))"
    by (simp add: set_insert_bst)
  then have ok: "success (fst (remove v (snd (insert_bst v rt))))"
    using i remove_loop_success by (simp add: remove_def)
  from i r c s1 s2 ok show ?thesis
    by (simp add: bst_inv_distinct)
qed

theorem C1_witness:
  "bst_inv example_tree
   \<and> bst_inv (snd (insert_bst 9 example_tree)) 
   \<and> bst_inv (snd (remove 15 example_tree))
   \<and> \<not> found (search 9 (snd (remove 9 (snd (insert_bst 9 example_tree)))))"
proof -
  have h: "bst_inv example_tree"
    by (simp add: example_tree_eq)
  from C1_mutations_preserve_invariant [OF h, of 9] C1_mutations_preserve_invariant [OF h, of 15] h
  show ?thesis by simp
qed

section \<open>Inorder traversal of inserted values\<close>

lemma inorder_traverse_values: "inorder_traverse t vs = vs @ node_values t"
  by (induction t arbitrary: vs) auto

lemma bst_inv_sorted: "bst_inv t \<Longrightarrow> sorted_wrt (<) (node_values t)"
  by (induction t) (fastforce simp: sorted_wrt_append)+

lemma insert_all_inv:
  "bst_inv t \<Longrightarrow> bst_inv (insert_all xs t) \<and> set (node_values (insert_all xs t)) = set (node_values t) \<union> set xs"
proof (induction xs arbitrary: t)
  case Nil
  then show ?case by (simp add: insert_all_def)
next
  case (Cons a xs)
  have step: "insert_all (a # xs) t = insert_all xs (snd (insert_bst a t))"
    by (simp add: insert_all_def)
  have "bst_inv (snd (insert_bst a t))"
    using Cons.prems by (rule inv_insert_bst)
  from Cons.IH [OF this] show ?case
    unfolding step by (auto simp: set_insert_bst)
qed

lemma strict_sorted_unique:
  fixes xs ys :: "int list"
  assumes "sorted_wrt (<) ys" and "set ys = set xs" and "distinct xs"
  shows "ys = sort xs"
proof -
  have "sorted ys" and "distinct ys"
    using assms(1) strict_sorted_iff by auto
  moreover have "sorted (sort xs)" and "distinct (sort xs)" and "set (sort xs) = set ys"
    using assms by simp_all
  ultimately show ?thesis
    using sorted_distinct_set_unique by blast
qed

text \<open>
  Claim C3. After inserting a sequence of distinct values into the empty tree,
  \<^verbatim>\<open>inorder()\<close> returns exactly those values, sorted, in strictly ascending order. For
  15, 6, 23, 4, 7, 20, 50 it returns 4, 6, 7, 15, 20, 23, 50, and \<^verbatim>\<open>search(20)\<close> finds
  the value along the path 15, 23, 20.
\<close>

theorem C3_inorder_ascending:
  "(distinct xs \<longrightarrow>
      values (inorder (insert_all xs Null)) = sort xs
      \<and> sorted_wrt (<) (values (inorder (insert_all xs Null))))
   \<and> values (inorder (insert_all [15, 6, 23, 4, 7, 20, 50] Null)) = [4, 6, 7, 15, 20, 23, 50]
   \<and> found (search 20 (insert_all [15, 6, 23, 4, 7, 20, 50] Null))
   \<and> path (search 20 (insert_all [15, 6, 23, 4, 7, 20, 50] Null)) = [15, 23, 20]"
proof -
  have inv: "bst_inv (insert_all xs Null)"
    and vs: "set (node_values (insert_all xs Null)) = set xs"
    using insert_all_inv [of Null xs] by simp_all
  have io: "values (inorder (insert_all xs Null)) = node_values (insert_all xs Null)"
    by (simp add: inorder_def Let_def inorder_traverse_values)
  have srt: "sorted_wrt (<) (node_values (insert_all xs Null))"
    using inv by (rule bst_inv_sorted)
  have gen: "distinct xs \<longrightarrow>
      values (inorder (insert_all xs Null)) = sort xs
      \<and> sorted_wrt (<) (values (inorder (insert_all xs Null)))"
    using strict_sorted_unique [OF srt vs] srt io by metis
  have ex1: "values (inorder (insert_all [15, 6, 23, 4, 7, 20, 50] Null)) = [4, 6, 7, 15, 20, 23, 50]"
    unfolding example_tree_def [symmetric] by (simp add: example_tree_eq inorder_def Let_def)
  have ex2: "found (search 20 (insert_all [15, 6, 23, 4, 7, 20, 50] Null))
     \<and> path (search 20 (insert_all [15, 6, 23, 4, 7, 20, 50] Null)) = [15, 23, 20]"
    unfolding example_tree_def [symmetric] by (simp add: example_tree_eq search_def Let_def)
  from gen ex1 ex2 show ?thesis by blast
qed

theorem C3_witness:
  "distinct [5, 3, 8 :: int] \<and> values (inorder (insert_all [5, 3, 8] Null)) = [3, 5, 8]"
proof -
  have d: "distinct [5, 3, 8 :: int]" by simp
  have s: "sort [5, 3, 8 :: int] = [3, 5, 8]" by simp
  from C3_inorder_ascending [of "[5, 3, 8]"] d s show ?thesis by simp
qed

section \<open>Operations that fail\<close>

lemma search_loop_path: "path (search_loop v t p) = p @ descent_path v t"
  by (induction t arbitrary: p) (auto simp: Let_def)

lemma insert_loop_duplicate:
  "bst_inv t \<Longrightarrow> v \<in> set (node_values t) \<Longrightarrow>
     \<not> success (fst (insert_loop v t p)) \<and> path (fst (insert_loop v t p)) = p @ descent_path v t
     \<and> snd (insert_loop v t p) = t"
proof (induction t arbitrary: p)
  case Null
  then show ?case by simp
next
  case (BSTNode l c r)
  then show ?case
    by (cases "l = Null"; cases "r = Null") (auto simp: Let_def split_beta)
qed

lemma remove_loop_absent:
  "v \<notin> set (node_values t) \<Longrightarrow>
     \<not> success (fst (remove_loop v t p)) \<and> path (fst (remove_loop v t p)) = p @ descent_path v t
     \<and> snd (remove_loop v t p) = t"
  by (induction t arbitrary: p) (auto simp: split_beta)

lemma search_loop_absent:
  "v \<notin> set (node_values t) \<Longrightarrow> \<not> found (search_loop v t p)"
  by (induction t arbitrary: p) (auto simp: Let_def)

text \<open>
  Claim C4. Inserting a value that the tree already holds returns \<^verbatim>\<open>success = false\<close>
  with the values compared so far as path, and the tree is the same afterwards. Searching
  for or removing a value that the tree does not hold returns \<^verbatim>\<open>found = false\<close> and
  \<^verbatim>\<open>success = false\<close> with the comparison path, and the tree is the same afterwards.
\<close>

theorem C4_failed_operations_change_nothing:
  "(bst_inv rt \<and> v \<in> set (node_values rt) \<longrightarrow>
      \<not> success (fst (insert_bst v rt)) \<and> path (fst (insert_bst v rt)) = descent_path v rt
      \<and> snd (insert_bst v rt) = rt)
   \<and> (v \<notin> set (node_values rt) \<longrightarrow>
      \<not> found (search v rt) \<and> path (search v rt) = descent_path v rt
      \<and> \<not> success (fst (remove v rt)) \<and> path (fst (remove v rt)) = descent_path v rt
      \<and> snd (remove v rt) = rt)"
proof -
  have a: "bst_inv rt \<and> v \<in> set (node_values rt) \<longrightarrow>
      \<not> success (fst (insert_bst v rt)) \<and> path (fst (insert_bst v rt)) = descent_path v rt
      \<and> snd (insert_bst v rt) = rt"
    using insert_loop_duplicate [of rt v "[]"] by (cases rt) (auto simp: insert_bst_def)
  have b: "v \<notin> set (node_values rt) \<longrightarrow>
      \<not> found (search v rt) \<and> path (search v rt) = descent_path v rt
      \<and> \<not> success (fst (remove v rt)) \<and> path (fst (remove v rt)) = descent_path v rt
      \<and> snd (remove v rt) = rt"
    using remove_loop_absent [of v rt "[]"] search_loop_absent [of v rt "[]"]
    by (simp add: search_def remove_def search_loop_path)
  from a b show ?thesis ..
qed

theorem C4_witness:
  "bst_inv example_tree \<and> 7 \<in> set (node_values example_tree)
   \<and> \<not> success (fst (insert_bst 7 example_tree)) \<and> path (fst (insert_bst 7 example_tree)) = [15, 6, 7]
   \<and> snd (insert_bst 7 example_tree) = example_tree
   \<and> 99 \<notin> set (node_values example_tree)
   \<and> \<not> found (search 99 example_tree) \<and> path (search 99 example_tree) = [15, 23, 50]
   \<and> \<not> success (fst (remove 99 example_tree)) \<and> path (fst (remove 99 example_tree)) = [15, 23, 50]
   \<and> snd (remove 99 example_tree) = example_tree"
proof -
  have h: "bst_inv example_tree \<and> 7 \<in> set (node_values example_tree)"
    and n: "99 \<notin> set (node_values example_tree)"
    and p7: "descent_path 7 example_tree = [15, 6, 7]"
    and p99: "descent_path 99 example_tree = [15, 23, 50]"
    by (simp_all add: example_tree_eq)
  from C4_failed_operations_change_nothing [where rt = example_tree and v = 7]
       C4_failed_operations_change_nothing [where rt = example_tree and v = 99] h n p7 p99
  show ?thesis by simp
qed


section \<open>Minimum and maximum\<close>

lemma left_spine_Nil [simp]: "left_spine t = [] \<longleftrightarrow> t = Null"
  by (cases t) auto

lemma right_spine_Nil [simp]: "right_spine t = [] \<longleftrightarrow> t = Null"
  by (cases t) auto

lemma findMin_loop_spine:
  "t \<noteq> Null \<Longrightarrow> findMin_loop t p = (last (left_spine t), p @ left_spine t)"
  by (induction t arbitrary: p) auto

lemma findMax_loop_spine:
  "t \<noteq> Null \<Longrightarrow> findMax_loop t p = (last (right_spine t), p @ right_spine t)"
  by (induction t arbitrary: p) auto

lemma left_spine_member: "t \<noteq> Null \<Longrightarrow> last (left_spine t) \<in> set (node_values t)"
  by (induction t) auto

lemma right_spine_member: "t \<noteq> Null \<Longrightarrow> last (right_spine t) \<in> set (node_values t)"
  by (induction t) auto

lemma left_spine_least:
  "bst_inv t \<Longrightarrow> w \<in> set (node_values t) \<Longrightarrow> last (left_spine t) \<le> w"
proof (induction t)
  case Null
  then show ?case by simp
next
  case (BSTNode l c r)
  show ?case
  proof (cases "l = Null")
    case True
    with BSTNode.prems show ?thesis by auto
  next
    case False
    then have "last (left_spine l) \<in> set (node_values l)"
      by (rule left_spine_member)
    with BSTNode False show ?thesis by fastforce
  qed
qed

lemma right_spine_greatest:
  "bst_inv t \<Longrightarrow> w \<in> set (node_values t) \<Longrightarrow> w \<le> last (right_spine t)"
proof (induction t)
  case Null
  then show ?case by simp
next
  case (BSTNode l c r)
  show ?case
  proof (cases "r = Null")
    case True
    with BSTNode.prems show ?thesis by auto
  next
    case False
    then have "last (right_spine r) \<in> set (node_values r)"
      by (rule right_spine_member)
    with BSTNode False show ?thesis by fastforce
  qed
qed

text \<open>
  Claim C8. On the empty tree \<^verbatim>\<open>findMin\<close> and \<^verbatim>\<open>findMax\<close> return the value
  \<^verbatim>\<open>null\<close>, an empty path and the message \<^verbatim>\<open>Tree is empty\<close>. Otherwise the path is the
  left (right) spine from the root, the returned value is the last value of the path,
  and on a tree satisfying the invariant it is the minimum (maximum) of all values.
\<close>

theorem C8_findMin_findMax:
  "findMin Null = \<lparr>message = ''Tree is empty'', path = [], minmax_result.value = None\<rparr>
   \<and> findMax Null = \<lparr>message = ''Tree is empty'', path = [], minmax_result.value = None\<rparr>
   \<and> (rt \<noteq> Null \<longrightarrow>
        path (findMin rt) = left_spine rt
        \<and> minmax_result.value (findMin rt) = Some (last (path (findMin rt)))
        \<and> path (findMax rt) = right_spine rt
        \<and> minmax_result.value (findMax rt) = Some (last (path (findMax rt))))
   \<and> (rt \<noteq> Null \<and> bst_inv rt \<longrightarrow>
        minmax_result.value (findMin rt) = Some (Min (set (node_values rt)))
        \<and> minmax_result.value (findMax rt) = Some (Max (set (node_values rt))))"
proof -
  have e: "findMin Null = \<lparr>message = ''Tree is empty'', path = [], minmax_result.value = None\<rparr>
     \<and> findMax Null = \<lparr>message = ''Tree is empty'', path = [], minmax_result.value = None\<rparr>"
    by (simp add: findMin_def findMax_def)
  have s: "rt \<noteq> Null \<longrightarrow>
        path (findMin rt) = left_spine rt
        \<and> minmax_result.value (findMin rt) = Some (last (path (findMin rt)))
        \<and> path (findMax rt) = right_spine rt
        \<and> minmax_result.value (findMax rt) = Some (last (path (findMax rt)))"
    by (simp add: findMin_def findMax_def findMin_loop_spine findMax_loop_spine)
  have m: "rt \<noteq> Null \<and> bst_inv rt \<longrightarrow>
        minmax_result.value (findMin rt) = Some (Min (set (node_values rt)))
        \<and> minmax_result.value (findMax rt) = Some (Max (set (node_values rt)))"
  proof
    assume h: "rt \<noteq> Null \<and> bst_inv rt"
    have "Min (set (node_values rt)) = last (left_spine rt)"
      using h left_spine_member left_spine_least by (intro Min_eqI) auto
    moreover have "Max (set (node_values rt)) = last (right_spine rt)"
      using h right_spine_member right_spine_greatest by (intro Max_eqI) auto
    ultimately show "minmax_result.value (findMin rt) = Some (Min (set (node_values rt)))
        \<and> minmax_result.value (findMax rt) = Some (Max (set (node_values rt)))"
      using h by (simp add: findMin_def findMax_def findMin_loop_spine findMax_loop_spine)
  qed
  from e s m show ?thesis by blast
qed

theorem C8_witness:
  "example_tree \<noteq> Null \<and> bst_inv example_tree
   \<and> path (findMin example_tree) = [15, 6, 4] \<and> minmax_result.value (findMin example_tree) = Some 4
   \<and> path (findMax example_tree) = [15, 23, 50] \<and> minmax_result.value (findMax example_tree) = Some 50
   \<and> Min (set (node_values example_tree)) = 4 \<and> Max (set (node_values example_tree)) = 50"
proof -
  have h: "example_tree \<noteq> Null \<and> bst_inv example_tree"
    and l: "left_spine example_tree = [15, 6, 4]"
    and r: "right_spine example_tree = [15, 23, 50]"
    by (simp_all add: example_tree_eq)
  note c = C8_findMin_findMax [of example_tree]
  from c h l have mn: "minmax_result.value (findMin example_tree) = Some 4" by simp
  from c h r have mx: "minmax_result.value (findMax example_tree) = Some 50" by simp
  from c h mn have "Some (Min (set (node_values example_tree))) = Some 4" by simp
  moreover from c h mx have "Some (Max (set (node_values example_tree))) = Some 50" by simp
  ultimately show ?thesis using c h l r mn mx by simp
qed

section \<open>Detailed traversals\<close>

lemma inorderDetailed_traverse_eq:
  "inorderDetailed_traverse t (ss, vs) = (ss @ inorder_events t, inorder_traverse t vs)"
  by (induction t arbitrary: ss vs) auto

lemma preorderDetailed_traverse_fst:
  "fst (preorderDetailed_traverse t (ss, vs)) = ss @ preorder_events t"
  by (induction t arbitrary: ss vs) (auto simp: split_beta)

lemma postorderDetailed_traverse_fst:
  "fst (postorderDetailed_traverse t (ss, vs)) = ss @ postorder_events t"
  by (induction t arbitrary: ss vs) (auto simp: split_beta)

lemma steps_inorderDetailed: "steps (inorderDetailed rt) = inorder_events rt"
  by (simp add: inorderDetailed_def inorderDetailed_traverse_eq)

lemma steps_preorderDetailed: "steps (preorderDetailed rt) = preorder_events rt"
  using preorderDetailed_traverse_fst [of rt "[]" "[]"]
  by (simp add: preorderDetailed_def split_beta)

lemma steps_postorderDetailed: "steps (postorderDetailed rt) = postorder_events rt"
  using postorderDetailed_traverse_fst [of rt "[]" "[]"]
  by (simp add: postorderDetailed_def split_beta)

lemma count_events_append:
  "count_events a v (es @ fs) = count_events a v es + count_events a v fs"
  by (simp add: count_events_def)

lemma count_events_single:
  "count_events a v [\<lparr>step.value = w, action = b\<rparr>] = (if b = a \<and> w = v then 1 else 0)"
  by (simp add: count_events_def)

lemma count_events_Cons:
  "count_events a v (\<lparr>step.value = w, action = b\<rparr> # es)
     = (if b = a \<and> w = v then 1 else 0) + count_events a v es"
  by (simp add: count_events_def)

lemma count_events_Nil: "count_events a v [] = 0"
  by (simp add: count_events_def)

lemmas count_events_simps =
  count_events_append count_events_single count_events_Cons count_events_Nil

lemma count_inorder_events:
  "a \<in> {''enter'', ''visit'', ''exit''} \<Longrightarrow>
     count_events a v (inorder_events t) = count_list (node_values t) v"
  by (induction t) (auto simp: count_events_simps)

lemma count_preorder_events:
  "a \<in> {''enter'', ''visit'', ''exit''} \<Longrightarrow>
     count_events a v (preorder_events t) = count_list (node_values t) v"
  by (induction t) (auto simp: count_events_simps)

lemma count_postorder_events:
  "a \<in> {''enter'', ''visit'', ''exit''} \<Longrightarrow>
     count_events a v (postorder_events t) = count_list (node_values t) v"
  by (induction t) (auto simp: count_events_simps)

lemma stack_depth_append: "stack_depth (es @ fs) = stack_depth es + stack_depth fs"
  by (simp add: stack_depth_def)

lemma stack_depth_Cons:
  "stack_depth (\<lparr>step.value = w, action = b\<rparr> # es)
     = (if b = ''enter'' then 1 else if b = ''exit'' then -1 else 0) + stack_depth es"
  by (simp add: stack_depth_def)

lemma stack_depth_Nil: "stack_depth [] = 0"
  by (simp add: stack_depth_def)

lemma balanced_Nil: "balanced []"
  by (simp add: balanced_def stack_depth_Nil)

lemma balanced_append: "balanced es \<Longrightarrow> balanced fs \<Longrightarrow> balanced (es @ fs)"
  by (simp add: balanced_def stack_depth_append)

lemma balanced_visit: "balanced [\<lparr>step.value = w, action = ''visit''\<rparr>]"
  by (auto simp: balanced_def stack_depth_Cons stack_depth_Nil take_Cons' )

lemma balanced_wrap:
  assumes "balanced es"
  shows "balanced (\<lparr>step.value = w, action = ''enter''\<rparr> # es @ [\<lparr>step.value = w, action = ''exit''\<rparr>])"
proof -
  have d: "stack_depth es = 0" and p: "\<And>n. 0 \<le> stack_depth (take n es)"
    using assms by (simp_all add: balanced_def)
  have x: "\<And>k. - 1 \<le> stack_depth (take k [\<lparr>step.value = w, action = ''exit''\<rparr>])"
    by (simp add: take_Cons' stack_depth_Cons stack_depth_Nil)
  have "0 \<le> stack_depth (take n (\<lparr>step.value = w, action = ''enter''\<rparr> # es @ [\<lparr>step.value = w, action = ''exit''\<rparr>]))" for n
  proof (cases n)
    case 0
    then show ?thesis by (simp add: stack_depth_Nil)
  next
    case (Suc m)
    show ?thesis
      using p [of m] x [of "m - length es"]
      by (simp add: Suc stack_depth_Cons stack_depth_append)
  qed
  then show ?thesis
    by (simp add: balanced_def stack_depth_Cons stack_depth_append d stack_depth_Nil)
qed

lemma balanced_inorder_events: "balanced (inorder_events t)"
proof (induction t)
  case Null
  then show ?case by (simp add: balanced_Nil)
next
  case (BSTNode l v r)
  have "balanced (inorder_events l @ [\<lparr>step.value = v, action = ''visit''\<rparr>] @ inorder_events r)"
    by (intro balanced_append BSTNode balanced_visit)
  from balanced_wrap [OF this, of v] show ?case by simp
qed

lemma balanced_preorder_events: "balanced (preorder_events t)"
proof (induction t)
  case Null
  then show ?case by (simp add: balanced_Nil)
next
  case (BSTNode l v r)
  have "balanced ([\<lparr>step.value = v, action = ''visit''\<rparr>] @ preorder_events l @ preorder_events r)"
    by (intro balanced_append BSTNode balanced_visit)
  from balanced_wrap [OF this, of v] show ?case by simp
qed

lemma balanced_postorder_events: "balanced (postorder_events t)"
proof (induction t)
  case Null
  then show ?case by (simp add: balanced_Nil)
next
  case (BSTNode l v r)
  have "balanced (postorder_events l @ postorder_events r @ [\<lparr>step.value = v, action = ''visit''\<rparr>])"
    by (intro balanced_append BSTNode balanced_visit)
  from balanced_wrap [OF this, of v] show ?case by simp
qed

lemma count_list_one: "distinct xs \<Longrightarrow> v \<in> set xs \<Longrightarrow> count_list xs v = 1"
  by (induction xs) (auto simp: count_list_0_iff)


text \<open>
  Claim C7. In the steps of each of \<^verbatim>\<open>inorderDetailed\<close>, \<^verbatim>\<open>preorderDetailed\<close> and
  \<^verbatim>\<open>postorderDetailed\<close>, a value has as many enter events, as many visit events and as
  many exit events as the tree has nodes with that value: exactly one of each for every
  value of a tree satisfying the invariant. At every prefix of the log the number of
  enter events minus the number of exit events is at least 0, and it is 0 for the whole
  log.
\<close>

theorem C7_detailed_event_logs:
  assumes "ss \<in> {steps (inorderDetailed rt), steps (preorderDetailed rt),
                 steps (postorderDetailed rt)}"
  shows "count_events ''enter'' v ss = count_list (node_values rt) v
       \<and> count_events ''visit'' v ss = count_list (node_values rt) v
       \<and> count_events ''exit'' v ss = count_list (node_values rt) v
       \<and> (bst_inv rt \<and> v \<in> set (node_values rt) \<longrightarrow>
            count_events ''enter'' v ss = 1 \<and> count_events ''visit'' v ss = 1
            \<and> count_events ''exit'' v ss = 1)
       \<and> 0 \<le> stack_depth (take n ss)
       \<and> stack_depth ss = 0"
proof -
  have c: "count_events a v ss = count_list (node_values rt) v"
    if "a \<in> {''enter'', ''visit'', ''exit''}" for a
    using assms that
    by (auto simp: steps_inorderDetailed steps_preorderDetailed steps_postorderDetailed
          count_inorder_events count_preorder_events count_postorder_events)
  have b: "balanced ss"
    using assms
    by (auto simp: steps_inorderDetailed steps_preorderDetailed steps_postorderDetailed
          balanced_inorder_events balanced_preorder_events balanced_postorder_events)
  have one: "count_list (node_values rt) v = 1" if "bst_inv rt \<and> v \<in> set (node_values rt)"
    using that by (simp add: count_list_one bst_inv_distinct)
  from c [of "''enter''"] c [of "''visit''"] c [of "''exit''"] b one show ?thesis
    by (simp add: balanced_def)
qed

theorem C7_witness:
  "steps (postorderDetailed example_tree)
     \<in> {steps (inorderDetailed example_tree), steps (preorderDetailed example_tree),
        steps (postorderDetailed example_tree)}
   \<and> bst_inv example_tree \<and> 20 \<in> set (node_values example_tree)
   \<and> count_events ''enter'' 20 (steps (postorderDetailed example_tree)) = 1
   \<and> count_events ''visit'' 20 (steps (postorderDetailed example_tree)) = 1
   \<and> count_events ''exit'' 20 (steps (postorderDetailed example_tree)) = 1
   \<and> 0 \<le> stack_depth (take 5 (steps (postorderDetailed example_tree)))
   \<and> stack_depth (steps (postorderDetailed example_tree)) = 0"
proof -
  have h: "bst_inv example_tree \<and> 20 \<in> set (node_values example_tree)"
    by (simp add: example_tree_eq)
  from C7_detailed_event_logs [where ss = "steps (postorderDetailed example_tree)"
         and rt = example_tree and v = 20 and n = 5] h
  show ?thesis by simp
qed

section \<open>Removing a node with two children\<close>

lemma successor_loop_eq:
  "t \<noteq> Null \<Longrightarrow> successor_loop t p = (last (left_spine t), p @ left_spine t, unlink_leftmost t)"
  by (induction t arbitrary: p) auto

lemma remove_loop_two_children:
  "locate v t = BSTNode l v r \<Longrightarrow> l \<noteq> Null \<Longrightarrow> r \<noteq> Null \<Longrightarrow>
     success (fst (remove_loop v t p))
     \<and> path (fst (remove_loop v t p)) = p @ descent_path v t @ left_spine r
     \<and> snd (remove_loop v t p) = graft v t (BSTNode l (last (left_spine r)) (unlink_leftmost r))"
proof (induction t arbitrary: p)
  case Null
  then show ?case by simp
next
  case (BSTNode tl c tr)
  show ?case
  proof (cases "c = v")
    case True
    with BSTNode.prems show ?thesis
      by (simp add: Let_def successor_loop_eq)
  next
    case False
    with BSTNode show ?thesis
      by (auto simp: split_beta)
  qed
qed

lemma graft_values: "set (node_values s) \<subseteq> set (node_values (graft v t s))"
  by (induction t) auto

text \<open>
  Claim C2. When the node holding \<open>v\<close> has two children \<open>l\<close> and \<open>r\<close>, \<^verbatim>\<open>remove(v)\<close>
  succeeds; its path is the descent to the node followed by the left spine of \<open>r\<close> down
  to the successor; the node keeps its place and its left subtree, takes the successor's
  value, and its right subtree is \<open>r\<close> with the successor replaced by the successor's
  right child, so the successor's value is still in the tree. On the tree built from
  15, 6, 23, 4, 7, 20, 50, \<^verbatim>\<open>remove(15)\<close> succeeds and leaves 20 at the root.
\<close>

theorem C2_remove_two_children:
  "(locate v rt = BSTNode l v r \<and> l \<noteq> Null \<and> r \<noteq> Null \<longrightarrow>
      success (fst (remove v rt))
      \<and> path (fst (remove v rt)) = descent_path v rt @ left_spine r
      \<and> snd (remove v rt) = graft v rt (BSTNode l (last (left_spine r)) (unlink_leftmost r))
      \<and> last (left_spine r) \<in> set (node_values (snd (remove v rt))))
   \<and> success (fst (remove 15 (insert_all [15, 6, 23, 4, 7, 20, 50] Null)))
   \<and> root_value (snd (remove 15 (insert_all [15, 6, 23, 4, 7, 20, 50] Null))) = Some 20"
proof -
  have g: "locate v rt = BSTNode l v r \<and> l \<noteq> Null \<and> r \<noteq> Null \<longrightarrow>
      success (fst (remove v rt))
      \<and> path (fst (remove v rt)) = descent_path v rt @ left_spine r
      \<and> snd (remove v rt) = graft v rt (BSTNode l (last (left_spine r)) (unlink_leftmost r))
      \<and> last (left_spine r) \<in> set (node_values (snd (remove v rt)))"
  proof
    assume h: "locate v rt = BSTNode l v r \<and> l \<noteq> Null \<and> r \<noteq> Null"
    then have a: "success (fst (remove v rt))
      \<and> path (fst (remove v rt)) = descent_path v rt @ left_spine r
      \<and> snd (remove v rt) = graft v rt (BSTNode l (last (left_spine r)) (unlink_leftmost r))"
      using remove_loop_two_children [of v rt l r "[]"] by (simp add: remove_def)
    have "last (left_spine r) \<in> set (node_values (BSTNode l (last (left_spine r)) (unlink_leftmost r)))"
      by simp
    then have "last (left_spine r) \<in> set (node_values (snd (remove v rt)))"
      using a graft_values by fastforce
    with a show "success (fst (remove v rt))
      \<and> path (fst (remove v rt)) = descent_path v rt @ left_spine r
      \<and> snd (remove v rt) = graft v rt (BSTNode l (last (left_spine r)) (unlink_leftmost r))
      \<and> last (left_spine r) \<in> set (node_values (snd (remove v rt)))"
      by simp
  qed
  have e: "success (fst (remove 15 (insert_all [15, 6, 23, 4, 7, 20, 50] Null)))
     \<and> root_value (snd (remove 15 (insert_all [15, 6, 23, 4, 7, 20, 50] Null))) = Some 20"
    unfolding example_tree_def [symmetric]
    by (simp add: example_tree_eq remove_def Let_def root_value_def)
  from g e show ?thesis ..
qed

theorem C2_witness:
  "locate 15 example_tree
     = BSTNode (BSTNode (BSTNode Null 4 Null) 6 (BSTNode Null 7 Null)) 15
         (BSTNode (BSTNode Null 20 Null) 23 (BSTNode Null 50 Null))
   \<and> BSTNode (BSTNode Null 4 Null) 6 (BSTNode Null 7 Null) \<noteq> Null
   \<and> BSTNode (BSTNode Null 20 Null) 23 (BSTNode Null 50 Null) \<noteq> Null
   \<and> success (fst (remove 15 example_tree))
   \<and> path (fst (remove 15 example_tree)) = [15, 23, 20]
   \<and> snd (remove 15 example_tree)
       = BSTNode (BSTNode (BSTNode Null 4 Null) 6 (BSTNode Null 7 Null)) 20
           (BSTNode Null 23 (BSTNode Null 50 Null))
   \<and> 20 \<in> set (node_values (snd (remove 15 example_tree)))"
proof -
  have h: "locate 15 example_tree
     = BSTNode (BSTNode (BSTNode Null 4 Null) 6 (BSTNode Null 7 Null)) 15
         (BSTNode (BSTNode Null 20 Null) 23 (BSTNode Null 50 Null))"
    and d: "descent_path 15 example_tree = [15]"
    by (simp_all add: example_tree_eq)
  from C2_remove_two_children [where v = 15 and rt = example_tree
         and l = "BSTNode (BSTNode Null 4 Null) 6 (BSTNode Null 7 Null)"
         and r = "BSTNode (BSTNode Null 20 Null) 23 (BSTNode Null 50 Null)"] h d
  show ?thesis by (simp add: example_tree_eq)
qed

section \<open>Frames of a traversal\<close>

lemma body_no_edges:
  assumes "\<forall>f \<in> set (frames s). connectedEdges f = []"
  shows "\<forall>f \<in> set (frames (generateTraversalFrames_body currentNodes s st)). connectedEdges f = []"
  using assms
  by (auto simp: generateTraversalFrames_body_def Let_def split: option.splits)

lemma foldl_body_no_edges:
  "\<forall>f \<in> set (frames s). connectedEdges f = [] \<Longrightarrow>
   \<forall>f \<in> set (frames (foldl (generateTraversalFrames_body currentNodes) s stps)).
      connectedEdges f = []"
proof (induction stps arbitrary: s)
  case Nil
  then show ?case by simp
next
  case (Cons st stps)
  from Cons.prems have "\<forall>f \<in> set (frames (generateTraversalFrames_body currentNodes s st)).
      connectedEdges f = []"
    by (rule body_no_edges)
  from Cons.IH [OF this] show ?case by simp
qed

text \<open>
  Claim C9. Every frame of \<^verbatim>\<open>generateTraversalFrames\<close> (the initial frame, the enter,
  visit and exit frames and the completion frame) has an empty \<^verbatim>\<open>connectedEdges\<close> list.
\<close>

theorem C9_traversal_frames_no_edges:
  "\<forall>f \<in> set (generateTraversalFrames currentNodes stps). connectedEdges f = []"
proof -
  let ?s0 = "\<lparr>currentVisited = [], currentPointer = None, currentHighlighted = None,
              frames = [blank_frame], currentPathNodes = []\<rparr>"
  have "\<forall>f \<in> set (frames ?s0). connectedEdges f = []"
    by (simp add: blank_frame_def)
  from foldl_body_no_edges [OF this, of currentNodes stps] show ?thesis
    by (auto simp: generateTraversalFrames_def Let_def)
qed

theorem C9_witness:
  "\<lparr>highlightedNode = Some 5, pointerPosition = Some \<lparr>x = 600, y = 120\<rparr>,
     visitedNodes = [], pathNodes = [5], connectedEdges = []\<rparr>
     \<in> set (generateTraversalFrames example_nodes [\<lparr>step.value = 5, action = ''enter''\<rparr>])
   \<and> connectedEdges \<lparr>highlightedNode = Some 5, pointerPosition = Some \<lparr>x = 600, y = 120\<rparr>,
     visitedNodes = [], pathNodes = [5], connectedEdges = []\<rparr> = []"
proof -
  have m: "\<lparr>highlightedNode = Some 5, pointerPosition = Some \<lparr>x = 600, y = 120\<rparr>,
     visitedNodes = [], pathNodes = [5], connectedEdges = []\<rparr>
     \<in> set (generateTraversalFrames example_nodes [\<lparr>step.value = 5, action = ''enter''\<rparr>])"
    by (simp add: generateTraversalFrames_def generateTraversalFrames_body_def Let_def
          getPos_def example_nodes_def)
  from C9_traversal_frames_no_edges [of example_nodes "[\<lparr>step.value = 5, action = ''enter''\<rparr>]"] m
  show ?thesis by blast
qed


section \<open>Frames of a path\<close>

lemma generatePathFrames_loop_done:
  "length pth \<le> i \<Longrightarrow> generatePathFrames_loop currentNodes pth i s = s"
  by (subst generatePathFrames_loop.simps) simp

lemma generatePathFrames_loop_step:
  "i < length pth \<Longrightarrow>
     generatePathFrames_loop currentNodes pth i s
       = generatePathFrames_loop currentNodes pth (Suc i)
           (generatePathFrames_body currentNodes pth i s)"
  by (subst generatePathFrames_loop.simps) simp

lemma path_body_no_pathNodes:
  assumes "\<forall>f \<in> set (frames s). pathNodes f = []"
  shows "\<forall>f \<in> set (frames (generatePathFrames_body currentNodes pth i s)). pathNodes f = []"
  using assms
  by (auto simp: generatePathFrames_body_def Let_def split: option.splits)

lemma path_loop_no_pathNodes:
  "\<forall>f \<in> set (frames s). pathNodes f = [] \<Longrightarrow>
   \<forall>f \<in> set (frames (generatePathFrames_loop currentNodes pth i s)). pathNodes f = []"
proof (induction currentNodes pth i s rule: generatePathFrames_loop.induct)
  case (1 currentNodes pth i s)
  show ?case
  proof (cases "i < length pth")
    case True
    from "1.prems" have "\<forall>f \<in> set (frames (generatePathFrames_body currentNodes pth i s)).
        pathNodes f = []"
      by (rule path_body_no_pathNodes)
    from "1.IH" [OF True this] True show ?thesis
      by (subst generatePathFrames_loop.simps) simp
  next
    case False
    with "1.prems" show ?thesis
      by (subst generatePathFrames_loop.simps) simp
  qed
qed

text \<open>
  Claim C10. Every frame of \<^verbatim>\<open>generatePathFrames\<close> has an empty \<^verbatim>\<open>pathNodes\<close> list,
  for every path, coordinate lookup and final highlight.
\<close>

theorem C10_path_frames_no_pathNodes:
  "\<forall>f \<in> set (generatePathFrames currentNodes pth finalHighlight). pathNodes f = []"
proof -
  let ?s0 = "\<lparr>currentVisited = [], currentPointer = None, currentHighlighted = None,
              frames = [blank_frame], currentAnimatedEdges = []\<rparr>"
  have "\<forall>f \<in> set (frames ?s0). pathNodes f = []"
    by (simp add: blank_frame_def)
  from path_loop_no_pathNodes [OF this, of currentNodes pth 0] show ?thesis
    by (auto simp: generatePathFrames_def Let_def split: option.splits)
qed


theorem C10_witness:
  "\<lparr>highlightedNode = Some 5, pointerPosition = Some \<lparr>x = 600, y = 120\<rparr>,
     visitedNodes = [5], pathNodes = [], connectedEdges = []\<rparr>
     \<in> set (generatePathFrames example_nodes [5] None)
   \<and> pathNodes \<lparr>highlightedNode = Some 5, pointerPosition = Some \<lparr>x = 600, y = 120\<rparr>,
     visitedNodes = [5], pathNodes = [], connectedEdges = []\<rparr> = []"
proof -
  have m: "\<lparr>highlightedNode = Some 5, pointerPosition = Some \<lparr>x = 600, y = 120\<rparr>,
     visitedNodes = [5], pathNodes = [], connectedEdges = []\<rparr>
     \<in> set (generatePathFrames example_nodes [5] None)"
    by (simp add: generatePathFrames_def generatePathFrames_loop_step
          generatePathFrames_loop_done generatePathFrames_body_def Let_def
          getPos_def example_nodes_def)
  from C10_path_frames_no_pathNodes [of example_nodes "[5]" None] m
  show ?thesis by blast
qed

lemma with_coordinate_Suc:
  "i < length pth \<Longrightarrow>
     with_coordinate currentNodes (take (Suc i) pth)
       = with_coordinate currentNodes (take i pth)
         @ (if getPos currentNodes (pth ! i) \<noteq> None then [pth ! i] else [])"
  by (simp add: with_coordinate_def take_Suc_conv_app_nth)

lemma edges_upto_Suc:
  "edges_upto currentNodes pth (Suc i) = edges_upto currentNodes pth i @ edge_at currentNodes pth i"
  by (simp add: edges_upto_def)

lemma edge_at_Nil:
  "getPos currentNodes (pth ! i) = Some pos \<Longrightarrow>
     edge_at currentNodes pth i = []
       \<longleftrightarrow> \<not> (i + 1 < length pth \<and> getPos currentNodes (pth ! (i + 1)) \<noteq> None)"
  by (auto simp: edge_at_def split: option.splits)

lemma body_currentVisited:
  "currentVisited (generatePathFrames_body currentNodes pth i s)
     = currentVisited s @ (if getPos currentNodes (pth ! i) \<noteq> None then [pth ! i] else [])"
  by (simp add: generatePathFrames_body_def Let_def split: option.splits)

lemma body_currentAnimatedEdges:
  "i < length pth \<Longrightarrow>
     currentAnimatedEdges (generatePathFrames_body currentNodes pth i s)
       = currentAnimatedEdges s @ edge_at currentNodes pth i"
  by (simp add: generatePathFrames_body_def edge_at_def Let_def less_diff_conv
        split: option.splits)

lemma body_frames:
  "i < length pth \<Longrightarrow>
     frames (generatePathFrames_body currentNodes pth i s)
       = frames s @
         (case getPos currentNodes (pth ! i) of
            None \<Rightarrow> []
          | Some pos \<Rightarrow>
              \<lparr>highlightedNode = Some (pth ! i), pointerPosition = Some pos,
                visitedNodes = currentVisited s @ [pth ! i], pathNodes = [],
                connectedEdges = currentAnimatedEdges s\<rparr>
              # (if edge_at currentNodes pth i = [] then []
                 else [\<lparr>highlightedNode = Some (pth ! i), pointerPosition = Some pos,
                        visitedNodes = currentVisited s @ [pth ! i], pathNodes = [],
                        connectedEdges = currentAnimatedEdges s @ edge_at currentNodes pth i\<rparr>]))"
  by (simp add: generatePathFrames_body_def edge_at_def Let_def less_diff_conv
        split: option.splits)

lemma path_body_inv:
  assumes "i < length pth" and "path_inv currentNodes pth i s"
  shows "path_inv currentNodes pth (Suc i) (generatePathFrames_body currentNodes pth i s)"
proof -
  have v: "currentVisited s = with_coordinate currentNodes (take i pth)"
    and e: "currentAnimatedEdges s = edges_upto currentNodes pth i"
    and f: "frames s = blank_frame # concat (map (frames_at currentNodes pth) [0..<i])"
    using assms(2) by (simp_all add: path_inv_def)
  have v': "currentVisited (generatePathFrames_body currentNodes pth i s)
              = with_coordinate currentNodes (take (Suc i) pth)"
    by (simp add: body_currentVisited v with_coordinate_Suc [OF assms(1)])
  have e': "currentAnimatedEdges (generatePathFrames_body currentNodes pth i s)
              = edges_upto currentNodes pth (Suc i)"
    by (simp add: body_currentAnimatedEdges [OF assms(1)] e edges_upto_Suc)
  have "frames (generatePathFrames_body currentNodes pth i s)
          = frames s @ frames_at currentNodes pth i"
    by (auto simp: body_frames [OF assms(1)] frames_at_def v e edges_upto_Suc
          with_coordinate_Suc [OF assms(1)] edge_at_Nil split: option.splits)
  then have f': "frames (generatePathFrames_body currentNodes pth i s)
          = blank_frame # concat (map (frames_at currentNodes pth) [0..<Suc i])"
    by (simp add: f)
  from v' e' f' show ?thesis
    by (simp add: path_inv_def)
qed

lemma path_loop_inv:
  "i \<le> length pth \<Longrightarrow> path_inv currentNodes pth i s \<Longrightarrow>
     path_inv currentNodes pth (length pth) (generatePathFrames_loop currentNodes pth i s)"
proof (induction currentNodes pth i s rule: generatePathFrames_loop.induct)
  case (1 currentNodes pth i s)
  show ?case
  proof (cases "i < length pth")
    case True
    have "path_inv currentNodes pth (Suc i) (generatePathFrames_body currentNodes pth i s)"
      using True "1.prems"(2) by (rule path_body_inv)
    with "1.IH" [OF True] True show ?thesis
      by (simp add: generatePathFrames_loop_step)
  next
    case False
    with "1.prems" show ?thesis
      by (simp add: generatePathFrames_loop_done)
  qed
qed

text \<open>
  Claim C6. \<^verbatim>\<open>generatePathFrames\<close> returns the initial blank frame; then, for each path
  value that has a coordinate, a frame that appends the value to the visited list with
  pointer and highlight on it, followed, when a next path value exists and has a
  coordinate, by a frame that appends the edge between the two to the connected edges;
  path values without a coordinate give no frame; and when \<^verbatim>\<open>finalHighlight\<close> is given
  and has a coordinate, one trailing frame highlights it with the visited list and the
  edges as accumulated.
\<close>

theorem C6_path_frames:
  "generatePathFrames currentNodes pth finalHighlight
     = path_frames currentNodes pth finalHighlight"
proof -
  let ?s0 = "\<lparr>currentVisited = [], currentPointer = None, currentHighlighted = None,
              frames = [blank_frame], currentAnimatedEdges = []\<rparr>"
  have "path_inv currentNodes pth 0 ?s0"
    by (simp add: path_inv_def with_coordinate_def edges_upto_def)
  then have "path_inv currentNodes pth (length pth) (generatePathFrames_loop currentNodes pth 0 ?s0)"
    by (intro path_loop_inv) simp_all
  then show ?thesis
    by (simp add: generatePathFrames_def path_frames_def final_frame_def path_inv_def Let_def
          split: option.splits)
qed

theorem C6_witness:
  "generatePathFrames example_nodes [0, 5, 7] (Some 5)
     = [blank_frame,
        \<lparr>highlightedNode = Some 0, pointerPosition = Some \<lparr>x = 400, y = 50\<rparr>,
          visitedNodes = [0], pathNodes = [], connectedEdges = []\<rparr>,
        \<lparr>highlightedNode = Some 0, pointerPosition = Some \<lparr>x = 400, y = 50\<rparr>,
          visitedNodes = [0], pathNodes = [],
          connectedEdges = [\<lparr>from = \<lparr>x = 400, y = 50, value = 0\<rparr>,
                             to = \<lparr>x = 600, y = 120, value = 5\<rparr>\<rparr>]\<rparr>,
        \<lparr>highlightedNode = Some 5, pointerPosition = Some \<lparr>x = 600, y = 120\<rparr>,
          visitedNodes = [0, 5], pathNodes = [],
          connectedEdges = [\<lparr>from = \<lparr>x = 400, y = 50, value = 0\<rparr>,
                             to = \<lparr>x = 600, y = 120, value = 5\<rparr>\<rparr>]\<rparr>,
        \<lparr>highlightedNode = Some 5, pointerPosition = Some \<lparr>x = 600, y = 120\<rparr>,
          visitedNodes = [0, 5], pathNodes = [],
          connectedEdges = [\<lparr>from = \<lparr>x = 400, y = 50, value = 0\<rparr>,
                             to = \<lparr>x = 600, y = 120, value = 5\<rparr>\<rparr>]\<rparr>]"
proof -
  have g: "getPos example_nodes 0 = Some \<lparr>x = 400, y = 50\<rparr>"
    "getPos example_nodes 7 = None"
    "getPos example_nodes 5 = Some \<lparr>x = 600, y = 120\<rparr>"
    by (simp_all add: getPos_def example_nodes_def)
  have u: "[0..<3] = [0, 1, 2]"
    by (simp add: upt_rec)
  show ?thesis
    unfolding C6_path_frames
    by (simp add: path_frames_def frames_at_def final_frame_def with_coordinate_def
          edges_upto_def edge_at_def g u upt_rec)
qed

section \<open>Exit events and the completion frame\<close>

lemma generateTraversalFrames_state:
  "generateTraversalFrames currentNodes stps
     = frames (traversal_state currentNodes stps)
       @ [\<lparr>highlightedNode = None, pointerPosition = None,
           visitedNodes = currentVisited (traversal_state currentNodes stps),
           pathNodes = [], connectedEdges = []\<rparr>]"
  by (simp add: generateTraversalFrames_def traversal_state_def Let_def)

lemma emitted_state: "emitted currentNodes stps = frames (traversal_state currentNodes stps)"
  by (simp add: emitted_def generateTraversalFrames_state)

lemma traversal_state_snoc:
  "traversal_state currentNodes (stps @ [e])
     = generateTraversalFrames_body currentNodes (traversal_state currentNodes stps) e"
  by (simp add: traversal_state_def)

lemma traversal_state_append:
  "traversal_state currentNodes (pre @ post)
     = foldl (generateTraversalFrames_body currentNodes) (traversal_state currentNodes pre) post"
  by (simp add: traversal_state_def)

lemma body_skip:
  "getPos currentNodes (step.value e) = None \<Longrightarrow> generateTraversalFrames_body currentNodes s e = s"
  by (simp add: generateTraversalFrames_body_def)

lemma body_inv:
  "traversal_inv currentNodes s \<Longrightarrow>
     traversal_inv currentNodes (generateTraversalFrames_body currentNodes s e)"
  by (auto simp: traversal_inv_def generateTraversalFrames_body_def Let_def list_all_iff
        split: option.splits)

lemma traversal_state_inv: "traversal_inv currentNodes (traversal_state currentNodes stps)"
proof (induction stps rule: rev_induct)
  case Nil
  show ?case by (simp add: traversal_state_def traversal_inv_def blank_frame_def)
next
  case (snoc e stps)
  then show ?case by (simp add: traversal_state_snoc body_inv)
qed

lemma body_visited:
  "currentVisited (generateTraversalFrames_body currentNodes s e)
     = currentVisited s
       @ (if action e = ''visit'' \<and> getPos currentNodes (step.value e) \<noteq> None
          then [step.value e] else [])"
  by (auto simp: generateTraversalFrames_body_def Let_def split: option.splits)

lemma traversal_state_visited:
  "currentVisited (traversal_state currentNodes stps) = visits currentNodes stps"
proof (induction stps rule: rev_induct)
  case Nil
  show ?case by (simp add: traversal_state_def visits_def)
next
  case (snoc e stps)
  then show ?case by (simp add: traversal_state_snoc body_visited visits_def)
qed

lemma body_frames_prefix:
  "take (length (frames s)) (frames (generateTraversalFrames_body currentNodes s e)) = frames s"
  by (auto simp: generateTraversalFrames_body_def Let_def split: option.splits)

lemma body_frames_length:
  "length (frames s) \<le> length (frames (generateTraversalFrames_body currentNodes s e))"
  by (auto simp: generateTraversalFrames_body_def Let_def split: option.splits)

lemma foldl_frames_prefix:
  "length (frames s) \<le> length (frames (foldl (generateTraversalFrames_body currentNodes) s post))
   \<and> take (length (frames s)) (frames (foldl (generateTraversalFrames_body currentNodes) s post))
     = frames s"
proof (induction post arbitrary: s)
  case Nil
  show ?case by simp
next
  case (Cons e post)
  let ?s1 = "generateTraversalFrames_body currentNodes s e"
  let ?f = "frames (foldl (generateTraversalFrames_body currentNodes) ?s1 post)"
  have l1: "length (frames s) \<le> length (frames ?s1)"
    by (rule body_frames_length)
  have ih: "length (frames ?s1) \<le> length ?f" "take (length (frames ?s1)) ?f = frames ?s1"
    using Cons.IH [of ?s1] by simp_all
  have "take (length (frames s)) ?f = take (length (frames s)) (take (length (frames ?s1)) ?f)"
    using l1 by (simp add: min_def)
  also have "\<dots> = frames s"
    by (simp add: ih(2) body_frames_prefix)
  finally show ?case using l1 ih(1) by simp
qed

lemma body_exit_frames:
  assumes "action e = ''exit''" and "getPos currentNodes (step.value e) = Some pos"
  shows "frames (generateTraversalFrames_body currentNodes s e)
     = frames s @
       [\<lparr>highlightedNode =
           (if filter (\<lambda>w. w \<noteq> step.value e) (currentPathNodes s) \<noteq> []
               \<and> last (filter (\<lambda>w. w \<noteq> step.value e) (currentPathNodes s)) \<noteq> 0
            then Some (last (filter (\<lambda>w. w \<noteq> step.value e) (currentPathNodes s))) else None),
          pointerPosition =
           (if filter (\<lambda>w. w \<noteq> step.value e) (currentPathNodes s) \<noteq> []
               \<and> last (filter (\<lambda>w. w \<noteq> step.value e) (currentPathNodes s)) \<noteq> 0
            then getPos currentNodes (last (filter (\<lambda>w. w \<noteq> step.value e) (currentPathNodes s)))
            else None),
          visitedNodes = currentVisited s,
          pathNodes = filter (\<lambda>w. w \<noteq> step.value e) (currentPathNodes s),
          connectedEdges = []\<rparr>]"
  using assms by (simp add: generateTraversalFrames_body_def Let_def truthy_def)

text \<open>
  Claim C5, as the code has it. An exit event whose value has no coordinate is skipped
  without a frame. An exit event whose value has a coordinate removes that value from
  the path-node stack and emits one frame with the new stack and the visited list
  unchanged; pointer and highlight are cleared when the new stack is empty, and are on
  the new stack top (at its coordinate, which exists) when the new stack is not empty
  and its top is not 0. The frames emitted so far stay a prefix of the result. After all
  events one completion frame follows: pointer and highlight cleared, path-node stack
  empty, visited list as accumulated.
\<close>

theorem C5_exit_and_completion_frames:
  assumes "action e = ''exit''"
  shows
    "(getPos currentNodes (step.value e) = None \<longrightarrow>
        emitted currentNodes (pre @ [e]) = emitted currentNodes pre)
     \<and> (getPos currentNodes (step.value e) \<noteq> None \<longrightarrow>
        (let stack = filter (\<lambda>w. w \<noteq> step.value e) (pathNodes (last (emitted currentNodes pre)));
             fr = last (emitted currentNodes (pre @ [e]))
         in emitted currentNodes (pre @ [e]) = emitted currentNodes pre @ [fr]
            \<and> pathNodes fr = stack
            \<and> visitedNodes fr = visitedNodes (last (emitted currentNodes pre))
            \<and> (stack = [] \<longrightarrow> highlightedNode fr = None \<and> pointerPosition fr = None)
            \<and> (stack \<noteq> [] \<and> last stack \<noteq> 0 \<longrightarrow>
                  highlightedNode fr = Some (last stack)
                  \<and> pointerPosition fr = getPos currentNodes (last stack)
                  \<and> pointerPosition fr \<noteq> None)))
     \<and> take (length (emitted currentNodes (pre @ [e])))
           (generateTraversalFrames currentNodes (pre @ e # post))
         = emitted currentNodes (pre @ [e])
     \<and> generateTraversalFrames currentNodes stps
         = emitted currentNodes stps
           @ [\<lparr>highlightedNode = None, pointerPosition = None,
               visitedNodes = visits currentNodes stps, pathNodes = [], connectedEdges = []\<rparr>]"
proof -
  let ?s = "traversal_state currentNodes pre"
  let ?stack = "filter (\<lambda>w. w \<noteq> step.value e) (currentPathNodes ?s)"
  have inv: "traversal_inv currentNodes ?s"
    by (rule traversal_state_inv)
  then have top: "pathNodes (last (emitted currentNodes pre)) = currentPathNodes ?s"
    and vis: "visitedNodes (last (emitted currentNodes pre)) = currentVisited ?s"
    and pos: "\<And>w. w \<in> set (currentPathNodes ?s) \<Longrightarrow> getPos currentNodes w \<noteq> None"
    by (simp_all add: traversal_inv_def emitted_state list_all_iff)
  have skip: "getPos currentNodes (step.value e) = None \<longrightarrow>
        emitted currentNodes (pre @ [e]) = emitted currentNodes pre"
    by (simp add: emitted_state traversal_state_snoc body_skip)
  have exit: "getPos currentNodes (step.value e) \<noteq> None \<longrightarrow>
        (let stack = filter (\<lambda>w. w \<noteq> step.value e) (pathNodes (last (emitted currentNodes pre)));
             fr = last (emitted currentNodes (pre @ [e]))
         in emitted currentNodes (pre @ [e]) = emitted currentNodes pre @ [fr]
            \<and> pathNodes fr = stack
            \<and> visitedNodes fr = visitedNodes (last (emitted currentNodes pre))
            \<and> (stack = [] \<longrightarrow> highlightedNode fr = None \<and> pointerPosition fr = None)
            \<and> (stack \<noteq> [] \<and> last stack \<noteq> 0 \<longrightarrow>
                  highlightedNode fr = Some (last stack)
                  \<and> pointerPosition fr = getPos currentNodes (last stack)
                  \<and> pointerPosition fr \<noteq> None))"
  proof
    assume "getPos currentNodes (step.value e) \<noteq> None"
    then obtain p where p: "getPos currentNodes (step.value e) = Some p"
      by auto
    have fr: "emitted currentNodes (pre @ [e]) = emitted currentNodes pre @
       [\<lparr>highlightedNode =
           (if ?stack \<noteq> [] \<and> last ?stack \<noteq> 0 then Some (last ?stack) else None),
          pointerPosition =
           (if ?stack \<noteq> [] \<and> last ?stack \<noteq> 0 then getPos currentNodes (last ?stack) else None),
          visitedNodes = currentVisited ?s,
          pathNodes = ?stack,
          connectedEdges = []\<rparr>]"
      by (simp add: emitted_state traversal_state_snoc body_exit_frames [OF assms p])
    have "getPos currentNodes (last ?stack) \<noteq> None" if "?stack \<noteq> []"
    proof -
      from that have "last ?stack \<in> set ?stack" by (rule last_in_set)
      then show ?thesis using pos by simp
    qed
    with fr top vis show "let stack = filter (\<lambda>w. w \<noteq> step.value e) (pathNodes (last (emitted currentNodes pre)));
             fr = last (emitted currentNodes (pre @ [e]))
         in emitted currentNodes (pre @ [e]) = emitted currentNodes pre @ [fr]
            \<and> pathNodes fr = stack
            \<and> visitedNodes fr = visitedNodes (last (emitted currentNodes pre))
            \<and> (stack = [] \<longrightarrow> highlightedNode fr = None \<and> pointerPosition fr = None)
            \<and> (stack \<noteq> [] \<and> last stack \<noteq> 0 \<longrightarrow>
                  highlightedNode fr = Some (last stack)
                  \<and> pointerPosition fr = getPos currentNodes (last stack)
                  \<and> pointerPosition fr \<noteq> None)"
      by (simp add: Let_def)
  qed
  have pre: "take (length (emitted currentNodes (pre @ [e])))
           (generateTraversalFrames currentNodes (pre @ e # post))
         = emitted currentNodes (pre @ [e])"
  proof -
    have "pre @ e # post = (pre @ [e]) @ post" by simp
    then have "traversal_state currentNodes (pre @ e # post)
         = foldl (generateTraversalFrames_body currentNodes) (traversal_state currentNodes (pre @ [e])) post"
      by (simp only: traversal_state_append)
    then show ?thesis
      using foldl_frames_prefix [of "traversal_state currentNodes (pre @ [e])" currentNodes post]
      by (simp add: generateTraversalFrames_state emitted_state)
  qed
  have fin: "generateTraversalFrames currentNodes stps
         = emitted currentNodes stps
           @ [\<lparr>highlightedNode = None, pointerPosition = None,
               visitedNodes = visits currentNodes stps, pathNodes = [], connectedEdges = []\<rparr>]"
    by (simp add: generateTraversalFrames_state emitted_state traversal_state_visited)
  from skip exit pre fin show ?thesis by blast
qed


theorem C5_witness:
  "action \<lparr>step.value = 9, action = ''exit''\<rparr> = ''exit''
   \<and> getPos example_nodes 9 \<noteq> None
   \<and> getPos example_nodes 7 = None
   \<and> filter (\<lambda>w. w \<noteq> 9)
        (pathNodes (last (emitted example_nodes
           [\<lparr>step.value = 0, action = ''enter''\<rparr>, \<lparr>step.value = 5, action = ''enter''\<rparr>,
            \<lparr>step.value = 9, action = ''enter''\<rparr>]))) = [0, 5]
   \<and> highlightedNode (last (emitted example_nodes
           [\<lparr>step.value = 0, action = ''enter''\<rparr>, \<lparr>step.value = 5, action = ''enter''\<rparr>,
            \<lparr>step.value = 9, action = ''enter''\<rparr>, \<lparr>step.value = 9, action = ''exit''\<rparr>])) = Some 5
   \<and> pointerPosition (last (emitted example_nodes
           [\<lparr>step.value = 0, action = ''enter''\<rparr>, \<lparr>step.value = 5, action = ''enter''\<rparr>,
            \<lparr>step.value = 9, action = ''enter''\<rparr>, \<lparr>step.value = 9, action = ''exit''\<rparr>]))
       = Some \<lparr>x = 600, y = 120\<rparr>
   \<and> filter (\<lambda>w. w \<noteq> 9)
        (pathNodes (last (emitted example_nodes [\<lparr>step.value = 9, action = ''enter''\<rparr>]))) = []
   \<and> highlightedNode (last (emitted example_nodes
           [\<lparr>step.value = 9, action = ''enter''\<rparr>, \<lparr>step.value = 9, action = ''exit''\<rparr>])) = None
   \<and> pointerPosition (last (emitted example_nodes
           [\<lparr>step.value = 9, action = ''enter''\<rparr>, \<lparr>step.value = 9, action = ''exit''\<rparr>])) = None
   \<and> emitted example_nodes [\<lparr>step.value = 9, action = ''enter''\<rparr>, \<lparr>step.value = 7, action = ''exit''\<rparr>]
       = emitted example_nodes [\<lparr>step.value = 9, action = ''enter''\<rparr>]"
proof -
  let ?e = "\<lparr>step.value = 9, action = ''exit''\<rparr>"
  let ?pre = "[\<lparr>step.value = 0, action = ''enter''\<rparr>, \<lparr>step.value = 5, action = ''enter''\<rparr>,
               \<lparr>step.value = 9, action = ''enter''\<rparr>]"
  have g: "getPos example_nodes 9 = Some \<lparr>x = 700, y = 190\<rparr>"
    "getPos example_nodes 5 = Some \<lparr>x = 600, y = 120\<rparr>"
    "getPos example_nodes 0 = Some \<lparr>x = 400, y = 50\<rparr>"
    "getPos example_nodes 7 = None"
    by (simp_all add: getPos_def example_nodes_def)
  have s1: "pathNodes (last (emitted example_nodes ?pre)) = [0, 5, 9]"
    by (simp add: emitted_def generateTraversalFrames_def generateTraversalFrames_body_def
          Let_def g)
  have s2: "pathNodes (last (emitted example_nodes [\<lparr>step.value = 9, action = ''enter''\<rparr>])) = [9]"
    by (simp add: emitted_def generateTraversalFrames_def generateTraversalFrames_body_def
          Let_def g)
  have a: "action ?e = ''exit''" and b: "action \<lparr>step.value = 7, action = ''exit''\<rparr> = ''exit''"
    by simp_all
  note w1 = C5_exit_and_completion_frames [OF a, where currentNodes = example_nodes and pre = ?pre]
  note w2 = C5_exit_and_completion_frames [OF a, where currentNodes = example_nodes
              and pre = "[\<lparr>step.value = 9, action = ''enter''\<rparr>]"]
  note w3 = C5_exit_and_completion_frames [OF b, where currentNodes = example_nodes
              and pre = "[\<lparr>step.value = 9, action = ''enter''\<rparr>]"]
  from w1 have c1: "highlightedNode (last (emitted example_nodes (?pre @ [?e]))) = Some 5
      \<and> pointerPosition (last (emitted example_nodes (?pre @ [?e]))) = Some \<lparr>x = 600, y = 120\<rparr>"
    by (simp add: Let_def s1 g)
  from w2 have c2: "highlightedNode (last (emitted example_nodes
           ([\<lparr>step.value = 9, action = ''enter''\<rparr>] @ [?e]))) = None
      \<and> pointerPosition (last (emitted example_nodes
           ([\<lparr>step.value = 9, action = ''enter''\<rparr>] @ [?e]))) = None"
    by (simp add: Let_def s2 g)
  from w3 have c3: "emitted example_nodes
        ([\<lparr>step.value = 9, action = ''enter''\<rparr>] @ [\<lparr>step.value = 7, action = ''exit''\<rparr>])
       = emitted example_nodes [\<lparr>step.value = 9, action = ''enter''\<rparr>]"
    by (simp add: g)
  from c1 c2 c3 s1 s2 g show ?thesis by simp
qed

text \<open>
  Claim C5 as stated fails on the log enter 0, enter 5, exit 5, exit 7 with coordinates
  for 0, 5 and 9: the frame of exit 5 has the non-empty stack \<open>[0]\<close> but pointer and
  highlight cleared (\<^verbatim>\<open>if (parentId)\<close> is false for the value 0), and exit 7, which has
  no coordinate, has no frame at all.
\<close>

theorem C5_counterexample:
  "generateTraversalFrames example_nodes
     [\<lparr>step.value = 0, action = ''enter''\<rparr>, \<lparr>step.value = 5, action = ''enter''\<rparr>,
      \<lparr>step.value = 5, action = ''exit''\<rparr>, \<lparr>step.value = 7, action = ''exit''\<rparr>]
   = [\<lparr>highlightedNode = None, pointerPosition = None, visitedNodes = [],
        pathNodes = [], connectedEdges = []\<rparr>,
      \<lparr>highlightedNode = Some 0, pointerPosition = Some \<lparr>x = 400, y = 50\<rparr>, visitedNodes = [],
        pathNodes = [0], connectedEdges = []\<rparr>,
      \<lparr>highlightedNode = Some 5, pointerPosition = Some \<lparr>x = 600, y = 120\<rparr>, visitedNodes = [],
        pathNodes = [0, 5], connectedEdges = []\<rparr>,
      \<lparr>highlightedNode = None, pointerPosition = None, visitedNodes = [],
        pathNodes = [0], connectedEdges = []\<rparr>,
      \<lparr>highlightedNode = None, pointerPosition = None, visitedNodes = [],
        pathNodes = [], connectedEdges = []\<rparr>]"
  by (simp add: generateTraversalFrames_def generateTraversalFrames_body_def Let_def truthy_def
        getPos_def example_nodes_def blank_frame_def)

end
